theory Spec2Isabelle
  imports Main "HOL-Library.Sublist"
begin

section \<open>Process supervisor (the server bootstrap file)\<close>

text \<open>
  The bootstrap file registers three process-level handlers:
  \<^verbatim>\<open>process.on('uncaughtException', err => { log; log; process.exit(1) })\<close>,
  \<^verbatim>\<open>process.on('unhandledRejection', err => { log; log; server.close(() => process.exit(1)) })\<close>
  and
  \<^verbatim>\<open>process.on('SIGTERM', () => { log; server.close(() => { log }) })\<close>.
  A handler body is a list of actions; \<open>server.close(cb)\<close> carries its callback.
\<close>

record js_error =
  name :: string
  message :: string

datatype action = Log string | Exit nat | ServerClose "action list"

text \<open>
  The process as far as the handlers touch it: the console, whether the server still
  accepts connections, the number of open connections (requests in flight), whether
  the connection that \<open>mongoose.connect\<close> has opened to the database is open (no
  handler closes it), the callbacks waiting for the server's \<open>close\<close> event, and the
  code given to \<open>process.exit\<close> (\<open>None\<close> while no call was made).
\<close>

record process =
  console :: "string list"
  listening :: bool
  connections :: nat
  database :: bool
  close_callbacks :: "action list list"
  exited :: "nat option"

text \<open>The two emoji of the log lines, as their UTF-8 bytes.\<close>

definition collision :: string where
  "collision = [CHR 0xF0, CHR 0x9F, CHR 0x92, CHR 0xA5]"

definition waving_hand :: string where
  "waving_hand = [CHR 0xF0, CHR 0x9F, CHR 0x91, CHR 0x8B]"

text \<open>
  Running a handler body. \<open>process.exit\<close> ends the process at once: nothing after it
  runs. \<open>server.close(cb)\<close> stops the server from accepting connections and keeps
  \<open>cb\<close> for the \<open>close\<close> event; the rest of the body goes on.
\<close>

fun exec :: "action list \<Rightarrow> process \<Rightarrow> process" where
  "exec [] p = p"
| "exec (Log s # as) p = exec as (p\<lparr>console := console p @ [s]\<rparr>)"
| "exec (Exit n # as) p = p\<lparr>exited := Some n\<rparr>"
| "exec (ServerClose cb # as) p =
     exec as (p\<lparr>listening := False, close_callbacks := close_callbacks p @ [cb]\<rparr>)"



datatype signal =
    UncaughtException js_error
  | UnhandledRejection js_error
  | SIGTERM
  | Connect
  | Disconnect

definition on_uncaughtException :: "js_error \<Rightarrow> action list" where
  "on_uncaughtException err =
     [Log (''UNCAUGHT EXCEPTION! '' @ collision @ '' Shutting down...''),
      Log (name err @ '' '' @ message err),
      Exit 1]"

definition on_unhandledRejection :: "js_error \<Rightarrow> action list" where
  "on_unhandledRejection err =
     [Log (''UNHANDLED REJECTION! '' @ collision @ '' Shutting down...''),
      Log (name err @ '' '' @ message err),
      ServerClose [Exit 1]]"

definition on_SIGTERM :: "action list" where
  "on_SIGTERM =
     [Log (waving_hand @ '' SIGTERM RECEIVED. Shutting down gracefully''),
      ServerClose [Log (collision @ '' Process terminated!'')]]"


text \<open>
  One turn of the event loop. A connection is accepted only while the server listens;
  a connection that ends leaves the count. After the handler, the \<open>close\<close> event fires
  if it is due. A process that has ended does nothing more.
\<close>

fun on :: "signal \<Rightarrow> process \<Rightarrow> process" where
  "on (UncaughtException err) p = exec (on_uncaughtException err) p"
| "on (UnhandledRejection err) p = exec (on_unhandledRejection err) p"
| "on SIGTERM p = exec on_SIGTERM p"
| "on Connect p = (if listening p then p\<lparr>connections := connections p + 1\<rparr> else p)"
| "on Disconnect p = p\<lparr>connections := connections p - 1\<rparr>"








section \<open>The request pipeline\<close>

subsection \<open>Requests, responses, errors\<close>

datatype http_method = GET | HEAD | POST | PUT | PATCH | DELETE | OPTIONS

text \<open>
  A parsed query (or form) value as the query-string parser builds it: a string, an
  array (a repeated parameter) or a nested object (bracket keys). An object is an
  association list in insertion order, as the keys of a JavaScript object are.
\<close>

datatype qval = QUndefined | QStr string | QArr "qval list" | QObj "(string \<times> qval) list"

type_synonym query = "(string \<times> qval) list"

datatype content_type = ApplicationJson | FormUrlencoded | OtherType

text \<open>
  How the headers announce a body: not at all, with a \<open>Content-Length\<close>, or with a
  \<open>Transfer-Encoding\<close>.
\<close>

datatype framing = NoBody | Sized | Chunked

text \<open>
  What arrives from the client, with \<open>req.ip\<close> and \<open>req.query\<close> as Express has
  derived them before the first stage: \<open>req_method\<close> is \<open>req.method\<close>,
  \<open>contentType\<close> says which of the parsers' media types the \<open>Content-Type\<close> header
  matches, \<open>charset\<close> is the charset parameter of that header and \<open>contentEncoding\<close>
  the \<open>Content-Encoding\<close> header, where the request has them, and \<open>rawBody\<close> are the
  bytes of the body as they were sent.
\<close>

record http_request =
  req_method :: http_method
  originalUrl :: string
  query :: query
  ip :: string
  framing :: framing
  contentType :: content_type
  charset :: "string option"
  contentEncoding :: "string option"
  rawBody :: string

definition hasBody :: "'a http_request_scheme \<Rightarrow> bool" where
  "hasBody r = (framing r \<noteq> NoBody)"

text \<open>
  \<open>req.body\<close>: not set, the empty object a parser leaves when it does not read the
  body, a \<open>Buffer\<close> of the raw bytes, the value parsed from a JSON text (kept as the
  text it was parsed from), or a parsed form.
\<close>

datatype body = Unset | EmptyObject | Buffer string | JsonValue string | Form query

text \<open>
  The request object that travels along the stages: the stages of this application
  write \<open>req.body\<close> (with the body parsers' mark \<open>req._body\<close>), \<open>req.query\<close> and
  \<open>req.requestTime\<close>.
\<close>

record request = http_request +
  body :: body
  parsed :: bool
  requestTime :: "nat option"

definition incoming :: "http_request \<Rightarrow> request" where
  "incoming h =
     \<lparr>req_method = req_method h, originalUrl = originalUrl h, query = query h, ip = ip h,
      framing = framing h, contentType = contentType h, charset = charset h,
      contentEncoding = contentEncoding h, rawBody = rawBody h,
      body = Unset, parsed = False, requestTime = None\<rparr>"

text \<open>
  The path of a request, as the router reads it from the request target. A target in
  origin form begins with \<open>/\<close>: its path ends where the query string (\<open>?\<close>) or a
  fragment (\<open>#\<close>) begins. A target in absolute form begins with a scheme and an
  authority, \<open>scheme://host\<close>, which are not part of the path; if nothing
  follows them, the path is \<open>/\<close>.
\<close>

definition cut :: "string \<Rightarrow> string" where
  "cut s = takeWhile (\<lambda>c. c \<noteq> CHR ''?'' \<and> c \<noteq> CHR ''#'') s"

definition after_authority :: "string \<Rightarrow> string option" where
  "after_authority url =
     (let scheme = takeWhile (\<lambda>c. c \<noteq> CHR '':'') url;
          rest = dropWhile (\<lambda>c. c \<noteq> CHR '':'') url
      in if scheme \<noteq> [] \<and> take 3 rest = ''://''
         then Some (dropWhile (\<lambda>c. c \<noteq> CHR ''/'' \<and> c \<noteq> CHR ''?'' \<and> c \<noteq> CHR ''#'')
                      (drop 3 rest))
         else None)"

definition pathname :: "string \<Rightarrow> string" where
  "pathname url =
     (if take 1 url = ''/'' then cut url
      else (case after_authority url of
              Some rest \<Rightarrow> if cut rest = [] then ''/'' else cut rest
            | None \<Rightarrow> cut url))"

definition path :: "'a http_request_scheme \<Rightarrow> string" where
  "path r = pathname (originalUrl r)"

record app_error = js_error +
  statusCode :: "nat option"
  isOperational :: bool

datatype fault_class = ClientFault | ServerFault

datatype payload =
    NoContent
  | Plain string
  | Bytes string
  | ErrorShape fault_class string
  | Document string
  | RedirectPage string

record response =
  status :: nat
  payload :: payload

definition lower_char :: "char \<Rightarrow> char" where
  "lower_char c =
     (case map_of (zip ''ABCDEFGHIJKLMNOPQRSTUVWXYZ'' ''abcdefghijklmnopqrstuvwxyz'') c of
        Some d \<Rightarrow> d
      | None \<Rightarrow> c)"

definition lower :: "string \<Rightarrow> string" where
  "lower s = map lower_char s"

definition upper_char :: "char \<Rightarrow> char" where
  "upper_char c =
     (case map_of (zip ''abcdefghijklmnopqrstuvwxyz'' ''ABCDEFGHIJKLMNOPQRSTUVWXYZ'') c of
        Some d \<Rightarrow> d
      | None \<Rightarrow> c)"

definition upper :: "string \<Rightarrow> string" where
  "upper s = map upper_char s"


subsection \<open>Route matching\<close>

text \<open>
  The application is created with Express's defaults, so paths are compared without
  regard to letter case and a trailing slash is optional. \<open>app.use(mount, ...)\<close>
  matches a path that continues the mount point at a segment boundary (every path, for
  the mount point \<open>/\<close>); \<open>app.METHOD(pattern, ...)\<close> matches the whole path, and the
  pattern \<open>*\<close> every path.
\<close>

definition mount_match :: "string \<Rightarrow> string \<Rightarrow> bool" where
  "mount_match mount p =
     (mount = ''/'' \<or>
      (take (length mount) (lower p) = lower mount \<and>
       (case drop (length mount) (lower p) of [] \<Rightarrow> True | c # _ \<Rightarrow> c = CHR ''/'')))"

definition route_match :: "string \<Rightarrow> string \<Rightarrow> bool" where
  "route_match pattern p =
     (pattern = ''*'' \<or> lower p = lower pattern \<or> lower p = lower pattern @ ''/'')"

datatype matcher = Use string | Verb http_method string | AllVerbs string

fun layer_match :: "matcher \<Rightarrow> 'a http_request_scheme \<Rightarrow> bool" where
  "layer_match (Use mount) r = mount_match mount (path r)"
| "layer_match (Verb v pattern) r = (req_method r = v \<and> route_match pattern (path r))"
| "layer_match (AllVerbs pattern) r = route_match pattern (path r)"

subsection \<open>The stages\<close>

text \<open>Every function that \<open>app.js\<close> registers, in the order of registration.\<close>

datatype handler =
    Cors | CorsPreflight | Static | Helmet | Morgan | Limiter
  | RawBody | WebhookCheckout
  | JsonParser | Urlencoded | CookieParser
  | MongoSanitize | Xss | Hpp | Compression | RequestTime
  | ViewRouter | TourRouter | UserRouter | ReviewRouter | BookingRouter
  | NotFound | GlobalErrorHandler

text \<open>
  A stage ends in one of three ways: it calls \<open>next()\<close> (with the request as it has
  left it), it calls \<open>next(err)\<close> or throws, or it sends the response itself.
\<close>

datatype outcome = Next request | Fail app_error | Respond response

text \<open>
  A route handler or router of the application that is not part of the bootstrap:
  it answers, raises, or passes the request on unchanged.
\<close>

datatype handled = Answer response | Raise app_error | PassOn

datatype node_env = Development | Production | OtherMode

text \<open>
  What the file server finds for a request in the \<open>public\<close> directory: nothing that
  it can serve; a file, sent whole; a file of which the request's \<open>Range\<close> header
  selects a part; a file that the request's conditional headers show to be unchanged; a
  directory, to which the client is redirected; or an error that the file server
  forwards (a failed precondition or an unsatisfiable range once the file is found, or
  an error of the file system).
\<close>

datatype static_answer =
    Missing
  | File string
  | Part string
  | NotModified
  | Redirect string
  | Forwarded app_error

text \<open>
  What the pipeline is run against: \<open>NODE_ENV\<close>, what the file server finds in the
  \<open>public\<close> directory, the runtime's decompression (the bytes that the stream of a
  compressed body yields, and the message of the error if the stream breaks), its
  character decoders other than UTF-8 (which it has, and what they yield), its JSON and
  form parsers (\<open>json_syntax_error\<close> gives the message of the parse error, if the text
  is not a JSON object or array), what the two sanitizers do to a body and to a query,
  and the route handlers and routers that \<open>app.js\<close> imports.
\<close>

record env =
  node_env :: node_env
  send :: "request \<Rightarrow> static_answer"
  inflate :: "string \<Rightarrow> string \<Rightarrow> string \<times> string option"
  encodingExists :: "string \<Rightarrow> bool"
  decode :: "string \<Rightarrow> string \<Rightarrow> string"
  json_syntax_error :: "string \<Rightarrow> string option"
  form_parse :: "string \<Rightarrow> query"
  mongo_body :: "body \<Rightarrow> body"
  mongo_query :: "query \<Rightarrow> query"
  xss_body :: "body \<Rightarrow> body"
  xss_query :: "query \<Rightarrow> query"
  webhookCheckout :: "request \<Rightarrow> handled"
  viewRouter :: "request \<Rightarrow> handled"
  tourRouter :: "request \<Rightarrow> handled"
  userRouter :: "request \<Rightarrow> handled"
  reviewRouter :: "request \<Rightarrow> handled"
  bookingRouter :: "request \<Rightarrow> handled"

fun of_handled :: "request \<Rightarrow> handled \<Rightarrow> outcome" where
  "of_handled r (Answer resp) = Respond resp"
| "of_handled r (Raise e) = Fail e"
| "of_handled r PassOn = Next r"

text \<open>
  \<open>cors()\<close> with its defaults: a pre-flight (OPTIONS) request is answered with 204
  and no content; any other request gets the allow-origin header and goes on.
\<close>

definition cors :: "request \<Rightarrow> outcome" where
  "cors r =
     (if req_method r = OPTIONS then Respond \<lparr>status = 204, payload = NoContent\<rparr> else Next r)"

text \<open>
  \<open>express.static(public)\<close> with its defaults. A request that is neither GET nor HEAD
  falls through, and so does one for which nothing can be served. Otherwise the file
  server answers itself: 200 with the file, 206 with the part asked for, 304 when the
  client's copy is fresh, 301 to the directory's path with a slash; or it forwards its
  error. The answer to a HEAD request has no body.
\<close>

definition answer :: "request \<Rightarrow> nat \<Rightarrow> payload \<Rightarrow> outcome" where
  "answer r code content =
     Respond \<lparr>status = code, payload = (if req_method r = HEAD then NoContent else content)\<rparr>"

definition static :: "env \<Rightarrow> request \<Rightarrow> outcome" where
  "static env r =
     (if req_method r = GET \<or> req_method r = HEAD
      then (case send env r of
              Missing \<Rightarrow> Next r
            | File bytes \<Rightarrow> answer r 200 (Bytes bytes)
            | Part bytes \<Rightarrow> answer r 206 (Bytes bytes)
            | NotModified \<Rightarrow> answer r 304 NoContent
            | Redirect location \<Rightarrow> answer r 301 (RedirectPage location)
            | Forwarded e \<Rightarrow> Fail e)
      else Next r)"

text \<open>
  The rate limiter, \<open>rateLimit({max: 100, windowMs: 60 * 60 * 1000, message: ...})\<close>,
  with the package's memory store: one counter per key (the client IP), all counters
  cleared by a timer every \<open>windowMs\<close>. Time is in milliseconds since the limiter was
  created; \<open>window\<close> is the number of the counting window the counters belong to.
  A request over the quota is answered by the limiter itself with status 429 and the
  message as the body.
\<close>

definition max_requests :: nat where
  "max_requests = 100"

definition windowMs :: nat where
  "windowMs = 60 * 60 * 1000"

definition limit_message :: string where
  "limit_message = ''Too many requests from this IP, please try again in an hour!''"

record limiter_store =
  hits :: "string \<Rightarrow> nat"
  window :: nat

definition fresh_store :: limiter_store where
  "fresh_store = \<lparr>hits = (\<lambda>key. 0), window = 0\<rparr>"

definition resetAll :: "nat \<Rightarrow> limiter_store \<Rightarrow> limiter_store" where
  "resetAll now st =
     (if now div windowMs = window st then st
      else \<lparr>hits = (\<lambda>key. 0), window = now div windowMs\<rparr>)"

definition limiter :: "nat \<Rightarrow> request \<Rightarrow> limiter_store \<Rightarrow> outcome \<times> limiter_store" where
  "limiter now r st =
     (let st1 = resetAll now st;
          current = hits st1 (ip r) + 1;
          st2 = st1\<lparr>hits := (hits st1)(ip r := current)\<rparr>
      in if current > max_requests
         then (Respond \<lparr>status = 429, payload = Plain limit_message\<rparr>, st2)
         else (Next r, st2))"

text \<open>
  The body parsers share one reader. The errors it raises are made by \<open>http-errors\<close>:
  they carry a status code and are not marked operational.
\<close>

definition too_large :: app_error where
  "too_large =
     \<lparr>name = ''PayloadTooLargeError'', message = ''request entity too large'',
      statusCode = Some 413, isOperational = False\<rparr>"

definition too_many_parameters :: app_error where
  "too_many_parameters =
     \<lparr>name = ''PayloadTooLargeError'', message = ''too many parameters'',
      statusCode = Some 413, isOperational = False\<rparr>"

definition unsupported_charset :: "string \<Rightarrow> app_error" where
  "unsupported_charset cs =
     \<lparr>name = ''UnsupportedMediaTypeError'',
      message = ''unsupported charset '' @ [CHR 0x22] @ upper cs @ [CHR 0x22],
      statusCode = Some 415, isOperational = False\<rparr>"

definition unsupported_encoding :: "string \<Rightarrow> app_error" where
  "unsupported_encoding c =
     \<lparr>name = ''UnsupportedMediaTypeError'',
      message = ''unsupported content encoding '' @ [CHR 0x22] @ c @ [CHR 0x22],
      statusCode = Some 415, isOperational = False\<rparr>"

definition stream_error :: "string \<Rightarrow> app_error" where
  "stream_error msg =
     \<lparr>name = ''Error'', message = msg, statusCode = Some 400, isOperational = False\<rparr>"

text \<open>
  The charset and the content coding that the parsers read from the headers, in lower
  case: \<open>utf-8\<close> and \<open>identity\<close> where the header says nothing.
\<close>

definition charset_of :: "'a http_request_scheme \<Rightarrow> string" where
  "charset_of r =
     (case charset r of None \<Rightarrow> ''utf-8'' | Some c \<Rightarrow> if c = [] then ''utf-8'' else lower c)"

definition coding_of :: "'a http_request_scheme \<Rightarrow> string" where
  "coding_of r =
     (case contentEncoding r of
        None \<Rightarrow> ''identity''
      | Some c \<Rightarrow> if c = [] then ''identity'' else lower c)"

text \<open>
  The stream that the body is read from. With no content coding it is the request
  itself, and its length is known if the request has a \<open>Content-Length\<close>. A body
  coded with \<open>gzip\<close> or \<open>deflate\<close> is read through the decompressor; any other
  coding is refused with 415. A stream is the bytes it yields and, if it breaks, the
  message of its error.
\<close>

type_synonym byte_stream = "string \<times> string option"

definition contentstream :: "env \<Rightarrow> request \<Rightarrow> app_error + (nat option \<times> byte_stream)" where
  "contentstream env r =
     (if coding_of r = ''identity''
      then Inr (if framing r = Sized then Some (length (rawBody r)) else None, (rawBody r, None))
      else if coding_of r = ''gzip'' \<or> coding_of r = ''deflate''
           then Inr (None, inflate env (coding_of r) (rawBody r))
           else Inl (unsupported_encoding (coding_of r)))"

text \<open>
  Reading the stream (\<open>raw-body\<close>): a known length over the limit fails at once with
  413; then the decoder for the charset is made, if the body is read as text, and a
  charset without a decoder fails with 415; then the stream is read, and fails with 413
  as soon as it has yielded more bytes than the limit, or with 400 if it breaks. The
  result are the bytes, or the text decoded from them.
\<close>

definition text_of :: "env \<Rightarrow> string option \<Rightarrow> string \<Rightarrow> string" where
  "text_of env encoding bytes =
     (case encoding of
        None \<Rightarrow> bytes
      | Some cs \<Rightarrow> if cs = ''utf-8'' then bytes else decode env cs bytes)"

definition no_decoder :: "env \<Rightarrow> string option \<Rightarrow> string option" where
  "no_decoder env encoding =
     (case encoding of
        None \<Rightarrow> None
      | Some cs \<Rightarrow> if cs = ''utf-8'' \<or> encodingExists env cs then None else Some cs)"

definition getRawBody ::
    "env \<Rightarrow> nat \<Rightarrow> string option \<Rightarrow> nat option \<Rightarrow> byte_stream \<Rightarrow> app_error + string" where
  "getRawBody env limit encoding len stream =
     (if (case len of Some n \<Rightarrow> limit < n | None \<Rightarrow> False) then Inl too_large
      else (case no_decoder env encoding of
              Some cs \<Rightarrow> Inl (unsupported_charset cs)
            | None \<Rightarrow>
                if limit < length (fst stream) then Inl too_large
                else (case snd stream of
                        Some msg \<Rightarrow> Inl (stream_error msg)
                      | None \<Rightarrow> Inr (text_of env encoding (fst stream)))))"

definition read ::
    "env \<Rightarrow> nat \<Rightarrow> string option \<Rightarrow> (string \<Rightarrow> app_error + body) \<Rightarrow> request \<Rightarrow> outcome" where
  "read env limit encoding parse r =
     (case contentstream env r of
        Inl e \<Rightarrow> Fail e
      | Inr (len, stream) \<Rightarrow>
          (case getRawBody env limit encoding len stream of
             Inl e \<Rightarrow> Fail e
           | Inr str \<Rightarrow>
               (case parse str of
                  Inl e \<Rightarrow> Fail e
                | Inr b \<Rightarrow> Next (r\<lparr>body := b, parsed := True\<rparr>))))"

text \<open>
  A parser passes on a request that an earlier parser has read; \<open>req.body\<close> defaults
  to the empty object; a request without a body or of another media type is passed on
  unread. A parser that reads text first checks the charset (415), with the test given
  as \<open>charsets\<close>; the raw parser has none. Then the body is read and parsed.
\<close>

definition read_body ::
    "env \<Rightarrow> content_type \<Rightarrow> nat \<Rightarrow> (string \<Rightarrow> bool) option \<Rightarrow> (string \<Rightarrow> app_error + body) \<Rightarrow>
     request \<Rightarrow> outcome" where
  "read_body env ty limit charsets parse r =
     (if parsed r then Next r
      else let r1 = r\<lparr>body := (if body r = Unset then EmptyObject else body r)\<rparr>
           in if \<not> hasBody r1 then Next r1
              else if contentType r1 \<noteq> ty then Next r1
              else (case charsets of
                      None \<Rightarrow> read env limit None parse r1
                    | Some accepted \<Rightarrow>
                        if accepted (charset_of r1)
                        then read env limit (Some (charset_of r1)) parse r1
                        else Fail (unsupported_charset (charset_of r1))))"

definition kb :: nat where
  "kb = 1024"

text \<open>\<open>express.raw({type: 'application/json'})\<close>: the default limit is 100kb.\<close>

definition raw :: "env \<Rightarrow> request \<Rightarrow> outcome" where
  "raw env r = read_body env ApplicationJson (100 * kb) None (\<lambda>bytes. Inr (Buffer bytes)) r"

text \<open>\<open>express.json({limit: '10kb'})\<close>: any charset whose name begins with \<open>utf-\<close>.\<close>

definition parse_json :: "env \<Rightarrow> string \<Rightarrow> app_error + body" where
  "parse_json env text =
     (if text = [] then Inr EmptyObject
      else case json_syntax_error env text of
             Some msg \<Rightarrow> Inl \<lparr>name = ''SyntaxError'', message = msg,
                             statusCode = Some 400, isOperational = False\<rparr>
           | None \<Rightarrow> Inr (JsonValue text))"

definition json :: "env \<Rightarrow> request \<Rightarrow> outcome" where
  "json env r =
     read_body env ApplicationJson (10 * kb) (Some (\<lambda>cs. take 4 cs = ''utf-''))
       (parse_json env) r"

text \<open>
  \<open>express.urlencoded({extended: true, limit: '10kb'})\<close>: the charset must be
  \<open>utf-8\<close>, and a form with 1000 or more \<open>&\<close> has too many parameters (413).
\<close>

definition parameterCount :: "string \<Rightarrow> nat \<Rightarrow> nat option" where
  "parameterCount text limit =
     (if limit \<le> length (filter (\<lambda>c. c = CHR ''&'') text) then None
      else Some (length (filter (\<lambda>c. c = CHR ''&'') text)))"

definition parse_form :: "env \<Rightarrow> string \<Rightarrow> app_error + body" where
  "parse_form env text =
     (if text = [] then Inr EmptyObject
      else case parameterCount text 1000 of
             None \<Rightarrow> Inl too_many_parameters
           | Some n \<Rightarrow> Inr (Form (form_parse env text)))"

definition urlencoded :: "env \<Rightarrow> request \<Rightarrow> outcome" where
  "urlencoded env r =
     read_body env FormUrlencoded (10 * kb) (Some (\<lambda>cs. cs = ''utf-8'')) (parse_form env) r"

text \<open>The two sanitizers rewrite \<open>req.body\<close> and \<open>req.query\<close>.\<close>

definition mongoSanitize :: "env \<Rightarrow> request \<Rightarrow> outcome" where
  "mongoSanitize env r =
     Next (r\<lparr>body := mongo_body env (body r), query := mongo_query env (query r)\<rparr>)"

definition xss :: "env \<Rightarrow> request \<Rightarrow> outcome" where
  "xss env r =
     Next (r\<lparr>body := xss_body env (body r), query := xss_query env (query r)\<rparr>)"

text \<open>
  The parameter-pollution guard, \<open>hpp({whitelist: [...]})\<close>. It looks at the top-level
  keys of the object: every array is put aside and replaced by its last element; then
  the arrays of the whitelisted keys are put back. It guards \<open>req.query\<close>, and
  \<open>req.body\<close> when the body is a URL-encoded form.
\<close>

definition whitelist :: "string list" where
  "whitelist =
     [''duration'', ''ratingsQuantity'', ''ratingsAverage'', ''maxGroupSize'',
      ''difficulty'', ''price'']"

definition last_element :: "qval list \<Rightarrow> qval" where
  "last_element vs = (if vs = [] then QUndefined else last vs)"

fun put_aside :: "query \<Rightarrow> query \<times> query" where
  "put_aside [] = ([], [])"
| "put_aside ((k, QArr vs) # q) =
     (case put_aside q of (q', polluted) \<Rightarrow> ((k, last_element vs) # q', (k, QArr vs) # polluted))"
| "put_aside ((k, v) # q) =
     (case put_aside q of (q', polluted) \<Rightarrow> ((k, v) # q', polluted))"

definition assign :: "query \<Rightarrow> string \<Rightarrow> qval \<Rightarrow> query" where
  "assign q k v =
     (if k \<in> fst ` set q then map (\<lambda>(k', v'). if k' = k then (k', v) else (k', v')) q
      else q @ [(k, v)])"

fun put_back :: "string list \<Rightarrow> query \<times> query \<Rightarrow> query \<times> query" where
  "put_back [] (q, polluted) = (q, polluted)"
| "put_back (w # ws) (q, polluted) =
     (case map_of polluted w of
        Some v \<Rightarrow> put_back ws (assign q w v, filter (\<lambda>(k, _). k \<noteq> w) polluted)
      | None \<Rightarrow> put_back ws (q, polluted))"

definition hpp_object :: "string list \<Rightarrow> query \<Rightarrow> query" where
  "hpp_object wl q = fst (put_back wl (put_aside q))"

definition hpp :: "request \<Rightarrow> outcome" where
  "hpp r =
     Next (r\<lparr>query := hpp_object whitelist (query r),
             body := (case body r of
                        Form f \<Rightarrow> if contentType r = FormUrlencoded
                                  then Form (hpp_object whitelist f) else Form f
                      | b \<Rightarrow> b)\<rparr>)"

text \<open>The anonymous stage that stamps the request with the time.\<close>

definition request_time :: "nat \<Rightarrow> request \<Rightarrow> outcome" where
  "request_time now r = Next (r\<lparr>requestTime := Some now\<rparr>)"

text \<open>
  Modelled from the spec: \<open>utils/appError\<close> (the class \<open>AppError\<close>), which is not
  among the sources. The spec's error has a status code, a human message and an
  operational flag, and the faults that the application builds itself are operational.
\<close>

definition AppError :: "string \<Rightarrow> nat \<Rightarrow> app_error" where
  "AppError msg code =
     \<lparr>name = ''Error'', message = msg, statusCode = Some code, isOperational = True\<rparr>"

text \<open>
  The catch-all route:
  \<^verbatim>\<open>next(new AppError(`Can't find ${req.originalUrl} on this server!`, 404))\<close>
\<close>

definition not_found :: "request \<Rightarrow> outcome" where
  "not_found r =
     Fail (AppError (''Can'' @ [CHR 0x27] @ ''t find '' @ originalUrl r @ '' on this server!'') 404)"

text \<open>
  Modelled from the spec: \<open>controllers/errorController\<close> (\<open>globalErrorHandler\<close>), which
  is not among the sources. Given any fault it produces a response body of
  \<open>{status, message}\<close> and an HTTP status code: an operational fault is shown with its
  own code and message; a programming fault is answered with 500 and a generic message,
  and in full only in a development configuration. The status of the body tells a 4xx
  client fault from a server fault; a fault without a status code counts as 500.
\<close>

definition generic_message :: string where
  "generic_message = ''something went wrong''"

definition fault_class :: "nat \<Rightarrow> fault_class" where
  "fault_class code = (if 400 \<le> code \<and> code < 500 then ClientFault else ServerFault)"

definition globalErrorHandler :: "env \<Rightarrow> app_error \<Rightarrow> response" where
  "globalErrorHandler env err =
     (let code = (case statusCode err of Some c \<Rightarrow> c | None \<Rightarrow> 500)
      in if isOperational err \<or> node_env env = Development
         then \<lparr>status = code, payload = ErrorShape (fault_class code) (message err)\<rparr>
         else \<lparr>status = 500, payload = ErrorShape ServerFault generic_message\<rparr>)"

text \<open>
  One call of a stage. The stages that only set response headers, write the log, parse
  cookies or wrap the response for compression pass the request on as it is. Only the
  rate limiter has state. The error handler is never called as an ordinary stage (see
  \<open>visit\<close> below); its equation here only makes the function total.
\<close>

fun run_handler :: "env \<Rightarrow> nat \<Rightarrow> handler \<Rightarrow> request \<Rightarrow> limiter_store \<Rightarrow> outcome \<times> limiter_store" where
  "run_handler env now Cors r st = (cors r, st)"
| "run_handler env now CorsPreflight r st = (cors r, st)"
| "run_handler env now Static r st = (static env r, st)"
| "run_handler env now Helmet r st = (Next r, st)"
| "run_handler env now Morgan r st = (Next r, st)"
| "run_handler env now Limiter r st = limiter now r st"
| "run_handler env now RawBody r st = (raw env r, st)"
| "run_handler env now WebhookCheckout r st = (of_handled r (webhookCheckout env r), st)"
| "run_handler env now JsonParser r st = (json env r, st)"
| "run_handler env now Urlencoded r st = (urlencoded env r, st)"
| "run_handler env now CookieParser r st = (Next r, st)"
| "run_handler env now MongoSanitize r st = (mongoSanitize env r, st)"
| "run_handler env now Xss r st = (xss env r, st)"
| "run_handler env now Hpp r st = (hpp r, st)"
| "run_handler env now Compression r st = (Next r, st)"
| "run_handler env now RequestTime r st = (request_time now r, st)"
| "run_handler env now ViewRouter r st = (of_handled r (viewRouter env r), st)"
| "run_handler env now TourRouter r st = (of_handled r (tourRouter env r), st)"
| "run_handler env now UserRouter r st = (of_handled r (userRouter env r), st)"
| "run_handler env now ReviewRouter r st = (of_handled r (reviewRouter env r), st)"
| "run_handler env now BookingRouter r st = (of_handled r (bookingRouter env r), st)"
| "run_handler env now NotFound r st = (not_found r, st)"
| "run_handler env now GlobalErrorHandler r st = (Next r, st)"

text \<open>The error-handling middleware are the functions of four arguments.\<close>

definition is_error_handler :: "handler \<Rightarrow> bool" where
  "is_error_handler h = (h = GlobalErrorHandler)"

subsection \<open>The pipeline\<close>

text \<open>
  The stack that \<open>app.js\<close> builds, one layer for each registered function, in the
  order of registration. The logger is registered in development only. The webhook
  route has two functions, the raw body parser and the handler: two layers with the
  route's method and path.
\<close>

definition app :: "node_env \<Rightarrow> (matcher \<times> handler) list" where
  "app mode =
     [(Use ''/'', Cors),
      (Verb OPTIONS ''*'', CorsPreflight),
      (Use ''/'', Static),
      (Use ''/'', Helmet)] @
     (if mode = Development then [(Use ''/'', Morgan)] else []) @
     [(Use ''/api'', Limiter),
      (Verb POST ''/webhook-checkout'', RawBody),
      (Verb POST ''/webhook-checkout'', WebhookCheckout),
      (Use ''/'', JsonParser),
      (Use ''/'', Urlencoded),
      (Use ''/'', CookieParser),
      (Use ''/'', MongoSanitize),
      (Use ''/'', Xss),
      (Use ''/'', Hpp),
      (Use ''/'', Compression),
      (Use ''/'', RequestTime),
      (Use ''/'', ViewRouter),
      (Use ''/api/v1/tours'', TourRouter),
      (Use ''/api/v1/users'', UserRouter),
      (Use ''/api/v1/reviews'', ReviewRouter),
      (Use ''/api/v1/bookings'', BookingRouter),
      (AllVerbs ''*'', NotFound),
      (Use ''/'', GlobalErrorHandler)]"

text \<open>
  Express walks the stack in the order of registration. While no error is pending, a
  layer is called when its path (and method) matches and it is an ordinary function;
  while an error is pending, when it matches and is an error handler. A stage that
  sends the response ends the walk: no later layer is called. At the end of the stack
  a walk that is still running or erring is left to Express's own final handler.
  The walk records the calls made, each with the request the stage received and how it
  ended, and the limiter's store.
\<close>

datatype mode = Running request | Erring app_error request | Sent response

type_synonym call = "handler \<times> request \<times> outcome"

record walk =
  calls :: "call list"
  mode :: mode
  store :: limiter_store

fun after :: "request \<Rightarrow> outcome \<Rightarrow> mode" where
  "after r (Next r') = Running r'"
| "after r (Fail e) = Erring e r"
| "after r (Respond resp) = Sent resp"

fun visit :: "env \<Rightarrow> nat \<Rightarrow> walk \<Rightarrow> matcher \<times> handler \<Rightarrow> walk" where
  "visit env now w (m, h) =
     (case mode w of
        Running r \<Rightarrow>
          if layer_match m r \<and> \<not> is_error_handler h
          then (case run_handler env now h r (store w) of
                  (out, st') \<Rightarrow>
                    \<lparr>calls = calls w @ [(h, r, out)], mode = after r out, store = st'\<rparr>)
          else w
      | Erring e r \<Rightarrow>
          if layer_match m r \<and> is_error_handler h
          then w\<lparr>calls := calls w @ [(h, r, Respond (globalErrorHandler env e))],
                 mode := Sent (globalErrorHandler env e)\<rparr>
          else w
      | Sent resp \<Rightarrow> w)"

definition start :: "request \<Rightarrow> limiter_store \<Rightarrow> walk" where
  "start r st = \<lparr>calls = [], mode = Running r, store = st\<rparr>"

definition dispatch ::
    "env \<Rightarrow> nat \<Rightarrow> (matcher \<times> handler) list \<Rightarrow> request \<Rightarrow> limiter_store \<Rightarrow> walk" where
  "dispatch env now stack r st = foldl (visit env now) (start r st) stack"

definition handle :: "env \<Rightarrow> nat \<Rightarrow> http_request \<Rightarrow> limiter_store \<Rightarrow> walk" where
  "handle env now h st = dispatch env now (app (node_env env)) (incoming h) st"

text \<open>The stages that ran, in order.\<close>

definition stages :: "walk \<Rightarrow> handler list" where
  "stages w = map fst (calls w)"

text \<open>
  A sequence of requests, each with its time of arrival, served one after the other:
  the walks, and the limiter's store at the end.
\<close>

fun serve :: "env \<Rightarrow> limiter_store \<Rightarrow> (nat \<times> http_request) list \<Rightarrow> walk list \<times> limiter_store" where
  "serve env st [] = ([], st)"
| "serve env st ((now, h) # rest) =
     (case serve env (store (handle env now h st)) rest of
        (ws, st') \<Rightarrow> (handle env now h st # ws, st'))"

subsection \<open>The query-string parser\<close>

text \<open>
  \<open>req.query\<close> is built by Express's default (extended) query parser from the part
  of the URL after \<open>?\<close>. The parser is followed here on the strings that need no
  decoding (no \<open>%\<close>, no \<open>+\<close>) and whose keys are plain names or names with one
  bracketed child that is not an array index, each name used in one of the two ways
  only, and neither a name nor a child being \<open>__proto__\<close> (which is not an ordinary
  key of a JavaScript object); on any other string \<open>parse_query\<close> is \<open>None\<close>.

  The parser works in two passes. The first splits the string at \<open>&\<close> (at most 1000
  parts are read), splits each part into key and value at the first \<open>]=\<close>, or else at the
  first \<open>=\<close>, and collects the values of equal keys in order. The second takes the
  keys in the order of their first occurrence, reads the brackets of each key and
  merges the result into the object; an empty key is dropped.
\<close>

fun split_on :: "char \<Rightarrow> string \<Rightarrow> string list" where
  "split_on c [] = [[]]"
| "split_on c (x # xs) =
     (if x = c then [] # split_on c xs
      else (case split_on c xs of
              p # ps \<Rightarrow> (x # p) # ps
            | [] \<Rightarrow> [[x]]))"

fun bracket_equals :: "string \<Rightarrow> nat option" where
  "bracket_equals (a # b # s) =
     (if a = CHR '']'' \<and> b = CHR ''='' then Some 0
      else map_option Suc (bracket_equals (b # s)))"
| "bracket_equals s = None"

fun index_of :: "char \<Rightarrow> string \<Rightarrow> nat option" where
  "index_of c [] = None"
| "index_of c (x # xs) = (if x = c then Some 0 else map_option Suc (index_of c xs))"

definition split_part :: "string \<Rightarrow> string \<times> string" where
  "split_part part =
     (case (case bracket_equals part of
              Some i \<Rightarrow> Some (i + 1)
            | None \<Rightarrow> index_of (CHR ''='') part) of
        None \<Rightarrow> (part, [])
      | Some pos \<Rightarrow> (take pos part, drop (pos + 1) part))"

type_synonym collected = "(string \<times> string list) list"

fun add_value :: "collected \<Rightarrow> string \<times> string \<Rightarrow> collected" where
  "add_value obj (k, v) =
     (if k \<in> fst ` set obj
      then map (\<lambda>(k', vs). if k' = k then (k', vs @ [v]) else (k', vs)) obj
      else obj @ [(k, [v])])"

text \<open>The parts of a query string, and those of them that the parser reads.\<close>

definition parts :: "string \<Rightarrow> string list" where
  "parts s = split_on (CHR ''&'') s"

definition parameterLimit :: nat where
  "parameterLimit = 1000"

definition parse_values :: "string \<Rightarrow> collected" where
  "parse_values s = foldl add_value [] (map split_part (take parameterLimit (parts s)))"

text \<open>One value stays a string; several values of one key are an array.\<close>

definition leaf :: "string list \<Rightarrow> qval" where
  "leaf vs = (case vs of [v] \<Rightarrow> QStr v | _ \<Rightarrow> QArr (map QStr vs))"

datatype key_shape = Name string | Child string string

definition digits :: "string \<Rightarrow> bool" where
  "digits s = (\<forall>c \<in> set s. c \<in> set ''0123456789'')"

definition parse_key :: "string \<Rightarrow> key_shape option" where
  "parse_key k =
     (if CHR ''['' \<notin> set k \<and> CHR '']'' \<notin> set k
      then (if k = ''__proto__'' then None else Some (Name k))
      else (case dropWhile (\<lambda>c. c \<noteq> CHR ''['') k of
              [] \<Rightarrow> None
            | c # inner \<Rightarrow>
                let name = takeWhile (\<lambda>c. c \<noteq> CHR ''['') k; sub = butlast inner
                in if inner \<noteq> [] \<and> last inner = CHR '']'' \<and> name \<noteq> [] \<and> sub \<noteq> [] \<and>
                      CHR '']'' \<notin> set name \<and> CHR ''['' \<notin> set sub \<and> CHR '']'' \<notin> set sub \<and>
                      \<not> digits sub \<and> name \<noteq> ''__proto__'' \<and> sub \<noteq> ''__proto__''
                   then Some (Child name sub) else None))"

fun merge_key :: "query option \<Rightarrow> string \<times> string list \<Rightarrow> query option" where
  "merge_key None kv = None"
| "merge_key (Some obj) (k, vs) =
     (if k = [] then Some obj
      else (case parse_key k of
              None \<Rightarrow> None
            | Some (Name n) \<Rightarrow>
                if n \<in> fst ` set obj then None else Some (obj @ [(n, leaf vs)])
            | Some (Child n sub) \<Rightarrow>
                (case map_of obj n of
                   None \<Rightarrow> Some (obj @ [(n, QObj [(sub, leaf vs)])])
                 | Some (QObj children) \<Rightarrow>
                     Some (assign obj n (QObj (children @ [(sub, leaf vs)])))
                 | Some other \<Rightarrow> None)))"

definition parse_query :: "string \<Rightarrow> query option" where
  "parse_query s =
     (if CHR ''%'' \<in> set s \<or> CHR ''+'' \<in> set s then None
      else foldl merge_key (Some []) (parse_values s))"

text \<open>
  The query string of a URL: what follows the first \<open>?\<close>, up to a fragment; a URL
  whose fragment begins before any \<open>?\<close> has none.
\<close>

definition search :: "string \<Rightarrow> string" where
  "search url =
     (case dropWhile (\<lambda>c. c \<noteq> CHR ''?'' \<and> c \<noteq> CHR ''#'') url of
        [] \<Rightarrow> []
      | c # rest \<Rightarrow> if c = CHR ''?'' then takeWhile (\<lambda>c. c \<noteq> CHR ''#'') rest else [])"


text \<open>The request of the spec's example, and its query as the parser builds it.\<close>

definition example_url :: string where
  "example_url = ''/api/v1/tours?price[gte]=100&price[lte]=500&difficulty=easy&difficulty=hard''"

definition example_query :: query where
  "example_query =
     [(''price'', QObj [(''gte'', QStr ''100''), (''lte'', QStr ''500'')]),
      (''difficulty'', QArr [QStr ''easy'', QStr ''hard''])]"

section \<open>Auxiliary notions for the proofs\<close>

text \<open>What the guard does to one entry, given the set of whitelisted keys.\<close>

fun is_array :: "qval \<Rightarrow> bool" where
  "is_array (QArr vs) = True"
| "is_array v = False"

fun guard :: "string set \<Rightarrow> string \<times> qval \<Rightarrow> string \<times> qval" where
  "guard W (k, QArr vs) = (if k \<in> W then (k, QArr vs) else (k, last_element vs))"
| "guard W (k, v) = (k, v)"



text \<open>
  Notions about walks: the part of a request that no stage writes; the request a
  walk is carrying; a walk whose requests all have the envelope of a given request; a
  walk whose calls all come from matching layers of a stack and end as the stage says;
  the stages that write to the request; and the three shapes a list of calls can have.
\<close>

definition envelope ::
    "'a http_request_scheme \<Rightarrow>
     http_method \<times> string \<times> string \<times> framing \<times> content_type \<times> string option \<times> string option \<times> string" where
  "envelope r =
     (req_method r, originalUrl r, ip r, framing r, contentType r, charset r, contentEncoding r,
      rawBody r)"

definition mode_request :: "mode \<Rightarrow> request option" where
  "mode_request md = (case md of Running r \<Rightarrow> Some r | Erring e r \<Rightarrow> Some r | Sent resp \<Rightarrow> None)"

abbreviation (input) walk_on :: "env \<Rightarrow> nat \<Rightarrow> walk \<Rightarrow> (matcher \<times> handler) list \<Rightarrow> walk" where
  "walk_on env now w ls \<equiv> foldl (visit env now) w ls"

definition addressed :: "'a http_request_scheme \<Rightarrow> walk \<Rightarrow> bool" where
  "addressed r0 w \<longleftrightarrow>
     (\<forall>(g, rg, out) \<in> set (calls w). envelope rg = envelope r0) \<and>
     (\<forall>r. mode_request (mode w) = Some r \<longrightarrow> envelope r = envelope r0)"

definition justified :: "env \<Rightarrow> nat \<Rightarrow> (matcher \<times> handler) list \<Rightarrow> walk \<Rightarrow> bool" where
  "justified env now ls w \<longleftrightarrow>
     (\<forall>(g, rg, out) \<in> set (calls w).
        (\<exists>m. (m, g) \<in> set ls \<and> layer_match m rg) \<and>
        (if is_error_handler g then \<exists>e. out = Respond (globalErrorHandler env e)
         else \<exists>st. out = fst (run_handler env now g rg st)))"

definition writes :: "handler \<Rightarrow> bool" where
  "writes g \<longleftrightarrow> g \<in> {RawBody, JsonParser, Urlencoded, MongoSanitize, Xss, Hpp, RequestTime}"

definition all_next :: "call list \<Rightarrow> bool" where
  "all_next cs \<longleftrightarrow> (\<forall>(g, rg, out) \<in> set cs. \<exists>r'. out = Next r')"

definition shaped :: "env \<Rightarrow> walk \<Rightarrow> bool" where
  "shaped env w \<longleftrightarrow>
     (case mode w of
        Running r \<Rightarrow> all_next (calls w)
      | Erring e r \<Rightarrow> (\<exists>cs g. calls w = cs @ [(g, r, Fail e)] \<and> all_next cs)
      | Sent resp \<Rightarrow>
          (\<exists>cs g rg. calls w = cs @ [(g, rg, Respond resp)] \<and> all_next cs \<and>
              \<not> is_error_handler g) \<or>
          (\<exists>cs f g rg e. calls w = cs @ [(f, rg, Fail e), (g, rg, Respond resp)] \<and>
              all_next cs \<and> is_error_handler g \<and> resp = globalErrorHandler env e))"

text \<open>
  The stack in two parts: the stages before the rate limiter, and the rest.
\<close>

definition front :: "node_env \<Rightarrow> (matcher \<times> handler) list" where
  "front md =
     [(Use ''/'', Cors), (Verb OPTIONS ''*'', CorsPreflight), (Use ''/'', Static),
      (Use ''/'', Helmet)] @
     (if md = Development then [(Use ''/'', Morgan)] else [])"

definition behind :: "(matcher \<times> handler) list" where
  "behind =
     [(Use ''/api'', Limiter),
      (Verb POST ''/webhook-checkout'', RawBody),
      (Verb POST ''/webhook-checkout'', WebhookCheckout),
      (Use ''/'', JsonParser),
      (Use ''/'', Urlencoded),
      (Use ''/'', CookieParser),
      (Use ''/'', MongoSanitize),
      (Use ''/'', Xss),
      (Use ''/'', Hpp),
      (Use ''/'', Compression),
      (Use ''/'', RequestTime),
      (Use ''/'', ViewRouter),
      (Use ''/api/v1/tours'', TourRouter),
      (Use ''/api/v1/users'', UserRouter),
      (Use ''/api/v1/reviews'', ReviewRouter),
      (Use ''/api/v1/bookings'', BookingRouter),
      (AllVerbs ''*'', NotFound),
      (Use ''/'', GlobalErrorHandler)]"


text \<open>The layers before the catch-all route, and the message of its fault.\<close>

definition before_catch_all :: "node_env \<Rightarrow> (matcher \<times> handler) list" where
  "before_catch_all md = front md @ take 16 behind"

definition cannot_find :: "string \<Rightarrow> string" where
  "cannot_find url = ''Can'' @ [CHR 0x27] @ ''t find '' @ url @ '' on this server!''"

text \<open>
  The bytes that reading the body of a request yields: the bytes sent, or what the
  decompressor yields from them.
\<close>

definition body_bytes :: "env \<Rightarrow> 'a http_request_scheme \<Rightarrow> string" where
  "body_bytes env r =
     (if coding_of r = ''identity'' then rawBody r
      else fst (inflate env (coding_of r) (rawBody r)))"

text \<open>
  Counting at the rate limiter: a walk in which the limiter was called for a request of
  the client \<open>a\<close>, and one in which the limiter passed it on; the count that the store
  holds for a client in the counting window \<open>k\<close>; and the limiter's own response.
\<close>

fun is_Next :: "outcome \<Rightarrow> bool" where
  "is_Next (Next r) = True"
| "is_Next out = False"

definition counted :: "string \<Rightarrow> walk \<Rightarrow> bool" where
  "counted a w = list_ex (\<lambda>(g, r, out). g = Limiter \<and> ip r = a) (calls w)"

definition admitted :: "string \<Rightarrow> walk \<Rightarrow> bool" where
  "admitted a w = list_ex (\<lambda>(g, r, out). g = Limiter \<and> ip r = a \<and> is_Next out) (calls w)"

definition used :: "nat \<Rightarrow> limiter_store \<Rightarrow> string \<Rightarrow> nat" where
  "used k st a = (if window st = k then hits st a else 0)"

definition too_many :: response where
  "too_many = \<lparr>status = 429, payload = Plain limit_message\<rparr>"

section \<open>Examples\<close>

text \<open>
  An environment to run examples in: no public files, a decompressor that yields what
  it is given, no decoder but UTF-8, every JSON text well formed, sanitizers that find
  nothing to change, a webhook handler that answers, and routers without a matching
  route.
\<close>

definition quiet :: env where
  "quiet =
     \<lparr>node_env = Production,
      send = (\<lambda>r. Missing),
      inflate = (\<lambda>c bytes. (bytes, None)),
      encodingExists = (\<lambda>cs. False),
      decode = (\<lambda>cs bytes. bytes),
      json_syntax_error = (\<lambda>t. None),
      form_parse = (\<lambda>t. []),
      mongo_body = (\<lambda>b. b), mongo_query = (\<lambda>q. q),
      xss_body = (\<lambda>b. b), xss_query = (\<lambda>q. q),
      webhookCheckout = (\<lambda>r. Answer \<lparr>status = 200, payload = Document ''received''\<rparr>),
      viewRouter = (\<lambda>r. PassOn), tourRouter = (\<lambda>r. PassOn), userRouter = (\<lambda>r. PassOn),
      reviewRouter = (\<lambda>r. PassOn), bookingRouter = (\<lambda>r. PassOn)\<rparr>"

text \<open>
  A GET request without a body, and a POST request with a body of a given length, with
  no charset and no content coding named.
\<close>

definition get :: "string \<Rightarrow> query \<Rightarrow> string \<Rightarrow> http_request" where
  "get url q addr =
     \<lparr>req_method = GET, originalUrl = url, query = q, ip = addr, framing = NoBody,
      contentType = OtherType, charset = None, contentEncoding = None, rawBody = []\<rparr>"

definition post :: "string \<Rightarrow> string \<Rightarrow> content_type \<Rightarrow> string \<Rightarrow> http_request" where
  "post url addr ty bytes =
     \<lparr>req_method = POST, originalUrl = url, query = [], ip = addr, framing = Sized,
      contentType = ty, charset = None, contentEncoding = None, rawBody = bytes\<rparr>"

section \<open>Properties of the process supervisor\<close>


























section \<open>The parameter-pollution guard\<close>

lemma fst_guard [simp]: "fst (guard W kv) = fst kv"
  by (cases "(W, kv)" rule: guard.cases) auto

lemma put_aside_eq:
  "put_aside q = (map (guard {}) q, filter (\<lambda>(k, v). is_array v) q)"
  by (induction q rule: put_aside.induct) auto

lemma map_of_filter_distinct:
  "distinct (map fst q) \<Longrightarrow>
     map_of (filter P q) k = (case map_of q k of Some v \<Rightarrow> if P (k, v) then Some v else None | None \<Rightarrow> None)"
proof (induction q)
  case Nil
  then show ?case by simp
next
  case (Cons a q)
  obtain k' v' where a: "a = (k', v')" by (cases a)
  from Cons.prems a have notin: "k' \<notin> fst ` set q" and d: "distinct (map fst q)" by auto
  from notin have none: "map_of q k' = None" by (simp add: map_of_eq_None_iff)
  from Cons.IH [OF d] none show ?case
    by (auto simp: a split: option.splits)
qed

lemma guard_insert_other:
  "fst kv \<noteq> w \<Longrightarrow> guard (insert w W) kv = guard W kv"
  by (cases "(W, kv)" rule: guard.cases) auto

lemma reassign_guard:
  "distinct (map fst q) \<Longrightarrow> map_of q w = Some (QArr vs) \<Longrightarrow>
     map (\<lambda>(k', v'). if k' = w then (k', QArr vs) else (k', v')) (map (guard W) q)
       = map (guard (insert w W)) q"
proof (induction q)
  case Nil
  then show ?case by simp
next
  case (Cons a q)
  obtain k v where a: "a = (k, v)" by (cases a)
  from Cons.prems a have notin: "k \<notin> fst ` set q" and d: "distinct (map fst q)" by auto
  show ?case
  proof (cases "k = w")
    case True
    with Cons.prems a have v: "v = QArr vs" by simp
    from notin True have "\<forall>kv \<in> set q. fst kv \<noteq> w" by auto
    then have "map (\<lambda>(k', v'). if k' = w then (k', QArr vs) else (k', v')) (map (guard W) q)
        = map (guard (insert w W)) q"
      by (induction q) (auto simp: guard_insert_other split: prod.splits, (metis fst_guard fst_conv)+)
    then show ?thesis by (simp add: a v True)
  next
    case False
    with Cons.prems a have "map_of q w = Some (QArr vs)" by simp
    from Cons.IH [OF d this] False show ?thesis
      by (auto simp: a guard_insert_other split: prod.splits) (metis fst_guard fst_conv)+
  qed
qed


lemma assign_guard:
  assumes "distinct (map fst q)" and "map_of q w = Some (QArr vs)"
  shows "assign (map (guard W) q) w (QArr vs) = map (guard (insert w W)) q"
proof -
  from assms(2) have "(w, QArr vs) \<in> set q" by (rule map_of_SomeD)
  then have "w \<in> fst ` set q" by force
  then have "w \<in> fst ` set (map (guard W) q)" by (simp add: image_image)
  then show ?thesis
    using reassign_guard [OF assms] by (simp add: assign_def del: set_map)
qed

lemma guard_insert_plain:
  "\<not> is_array (snd kv) \<Longrightarrow> guard (insert w W) kv = guard W kv"
  by (cases "(W, kv)" rule: guard.cases) auto

lemma guard_insert_absent:
  assumes "\<forall>v. map_of q w = Some v \<longrightarrow> \<not> is_array v \<or> w \<in> W" and "distinct (map fst q)"
  shows "map (guard (insert w W)) q = map (guard W) q"
proof (rule map_cong [OF refl])
  fix kv assume kv: "kv \<in> set q"
  obtain k v where e: "kv = (k, v)" by (cases kv)
  show "guard (insert w W) kv = guard W kv"
  proof (cases "k = w")
    case False
    then show ?thesis by (simp add: e guard_insert_other)
  next
    case True
    from kv e True assms(2) have "map_of q w = Some v" by simp
    with assms(1) have "\<not> is_array v \<or> w \<in> W" by simp
    then show ?thesis
      by (auto simp: e guard_insert_plain insert_absorb)
  qed
qed

lemma put_back_eq:
  "distinct (map fst q) \<Longrightarrow>
     fst (put_back ws (map (guard W) q, filter (\<lambda>(k, v). is_array v \<and> k \<notin> W) q))
       = map (guard (W \<union> set ws)) q"
proof (induction ws arbitrary: W)
  case Nil
  then show ?case by simp
next
  case (Cons w ws)
  let ?pol = "filter (\<lambda>(k, v). is_array v \<and> k \<notin> W) q"
  have look: "map_of ?pol w =
      (case map_of q w of Some v \<Rightarrow> if is_array v \<and> w \<notin> W then Some v else None | None \<Rightarrow> None)"
    by (simp add: map_of_filter_distinct [OF Cons.prems] split: option.splits)
  have less: "filter (\<lambda>(k, _). k \<noteq> w) ?pol = filter (\<lambda>(k, v). is_array v \<and> k \<notin> insert w W) q"
    by (induction q) auto
  show ?case
  proof (cases "map_of ?pol w")
    case None
    with look have "\<forall>v. map_of q w = Some v \<longrightarrow> \<not> is_array v \<or> w \<in> W"
      by (auto split: option.splits if_splits)
    from guard_insert_absent [OF this Cons.prems]
    have same: "map (guard (insert w W)) q = map (guard W) q" .
    have pol_same: "filter (\<lambda>(k, v). is_array v \<and> k \<notin> insert w W) q = ?pol"
    proof (rule filter_cong [OF refl])
      fix kv assume kv: "kv \<in> set q"
      obtain k v where e: "kv = (k, v)" by (cases kv)
      from kv e Cons.prems have "map_of q k = Some v" by simp
      with \<open>\<forall>v. map_of q w = Some v \<longrightarrow> \<not> is_array v \<or> w \<in> W\<close>
      show "(case kv of (k, v) \<Rightarrow> is_array v \<and> k \<notin> insert w W)
          = (case kv of (k, v) \<Rightarrow> is_array v \<and> k \<notin> W)"
        by (auto simp: e)
    qed
    from Cons.IH [OF Cons.prems, of "insert w W"] None same pol_same
    show ?thesis by simp
  next
    case (Some v)
    with look have qv: "map_of q w = Some v" and arr: "is_array v"
      by (auto split: option.splits if_splits)
    from arr obtain vs where v: "v = QArr vs" by (cases v) auto
    from assign_guard [OF Cons.prems, of w vs W] qv v
    have "assign (map (guard W) q) w v = map (guard (insert w W)) q" by simp
    with Cons.IH [OF Cons.prems, of "insert w W"] Some less
    show ?thesis by simp
  qed
qed

lemma hpp_object_eq:
  assumes "distinct (map fst q)"
  shows "hpp_object wl q = map (guard (set wl)) q"
  using put_back_eq [OF assms, of wl "{}"] by (simp add: hpp_object_def put_aside_eq)




section \<open>The query-string parser\<close>


















lemma example_parsed: "parse_query (search example_url) = Some example_query"
  by (simp add: example_url_def example_query_def search_def parse_query_def
      parse_values_def split_part_def parse_key_def leaf_def assign_def digits_def
      parts_def parameterLimit_def)

lemma example_guarded: "hpp_object whitelist example_query = example_query"
  by (simp add: hpp_object_eq example_query_def whitelist_def)






text \<open>
  The spec's example request. The parser builds \<open>price\<close> as the object
  \<open>{gte: 100, lte: 500}\<close> and \<open>difficulty\<close> as the array of its two values. The
  guard leaves the request as it is: \<open>difficulty\<close> is on the whitelist, so it does not
  collapse to \<open>hard\<close>.
\<close>

theorem example_difficulty_counterexample:
  "parse_query (search example_url) = Some example_query \<and>
   hpp (incoming (get example_url example_query ''10.0.0.1'')) =
     Next (incoming (get example_url example_query ''10.0.0.1'')) \<and>
   map_of (query (incoming (get example_url example_query ''10.0.0.1''))) ''difficulty''
     \<noteq> Some (QStr ''hard'')"
  by (simp add: example_parsed hpp_def example_guarded incoming_def get_def)
     (simp add: example_query_def)

text \<open>
  C6, as the code has it. For the request
  \<open>GET /api/v1/tours?price[gte]=100&price[lte]=500&difficulty=easy&difficulty=hard\<close>,
  after the guard has run, \<open>price\<close> is the range object with \<open>gte\<close> and \<open>lte\<close>,
  and \<open>difficulty\<close>, a whitelisted field, is still the array of \<open>easy\<close> and \<open>hard\<close>.
\<close>

theorem example_guard:
  "parse_query (search example_url) = Some example_query \<and>
   (\<exists>r'. hpp (r\<lparr>query := example_query\<rparr>) = Next r' \<and>
      map_of (query r') ''price'' = Some (QObj [(''gte'', QStr ''100''), (''lte'', QStr ''500'')]) \<and>
      map_of (query r') ''difficulty'' = Some (QArr [QStr ''easy'', QStr ''hard'']))"
  by (simp add: example_parsed hpp_def example_guarded) (simp add: example_query_def)


section \<open>Walks along a stack\<close>

lemma of_handled_Next: "of_handled r x = Next r' \<Longrightarrow> r' = r \<and> x = PassOn"
  by (cases x) auto

lemma static_Next: "static env r = Next r' \<Longrightarrow> r' = r"
  by (auto simp: static_def answer_def split: if_splits static_answer.splits)

lemma read_Next:
  "read env limit encoding parse r = Next r' \<Longrightarrow>
     \<exists>b. r' = r\<lparr>body := b, parsed := True\<rparr>"
  by (auto simp: read_def split: sum.splits prod.splits)

lemma read_body_cases:
  assumes "read_body env ty limit charsets parse r = out"
  obtains (seen) "parsed r" "out = Next r"
  | (unread) "\<not> parsed r" "out = Next (r\<lparr>body := (if body r = Unset then EmptyObject else body r)\<rparr>)"
      "\<not> hasBody r \<or> contentType r \<noteq> ty"
  | (charset) accepted where "\<not> parsed r" "hasBody r" "contentType r = ty"
      "charsets = Some accepted" "\<not> accepted (charset_of r)"
      "out = Fail (unsupported_charset (charset_of r))"
  | (reading) enc where "\<not> parsed r" "hasBody r" "contentType r = ty"
      "out = read env limit enc parse (r\<lparr>body := (if body r = Unset then EmptyObject else body r)\<rparr>)"
      "enc = (case charsets of None \<Rightarrow> None | Some accepted \<Rightarrow> Some (charset_of r))"
      "\<forall>accepted. charsets = Some accepted \<longrightarrow> accepted (charset_of r)"
proof (cases "parsed r")
  case True
  with assms show ?thesis by (intro seen) (simp_all add: read_body_def)
next
  case False
  note np = this
  show ?thesis
  proof (cases "\<not> hasBody r \<or> contentType r \<noteq> ty")
    case True
    with assms np show ?thesis
      by (intro unread) (auto simp: read_body_def Let_def hasBody_def)
  next
    case False
    then have hb: "hasBody r" "contentType r = ty" by simp_all
    show ?thesis
    proof (cases charsets)
      case None
      with assms np hb show ?thesis
        by (intro reading [of None]) (simp_all add: read_body_def Let_def hasBody_def charset_of_def)
    next
      case (Some accepted)
      show ?thesis
      proof (cases "accepted (charset_of r)")
        case True
        with assms np hb Some show ?thesis
          by (intro reading [of "Some (charset_of r)"])
            (simp_all add: read_body_def Let_def hasBody_def charset_of_def)
      next
        case False
        with assms np hb Some show ?thesis
          by (intro charset [of accepted])
            (simp_all add: read_body_def Let_def hasBody_def charset_of_def)
      qed
    qed
  qed
qed

lemma read_body_Next:
  assumes "read_body env ty limit charsets parse r = Next r'"
  shows "\<exists>b p. r' = r\<lparr>body := b, parsed := p\<rparr>"
  using assms
proof (cases rule: read_body_cases)
  case seen
  then have "r' = r\<lparr>body := body r, parsed := parsed r\<rparr>" by simp
  then show ?thesis by blast
next
  case unread
  then have "r' = r\<lparr>body := (if body r = Unset then EmptyObject else body r),
      parsed := parsed r\<rparr>" by simp
  then show ?thesis by blast
next
  case (charset accepted)
  then show ?thesis by simp
next
  case (reading enc)
  from read_Next [OF reading(4) [symmetric]] show ?thesis by auto
qed

lemma read_body_envelope:
  "read_body env ty limit charsets parse r = Next r' \<Longrightarrow> envelope r' = envelope r"
  by (drule read_body_Next) (auto simp: envelope_def)

lemmas stage_defs = cors_def limiter_def mongoSanitize_def xss_def hpp_def request_time_def
  not_found_def

lemma run_handler_envelope:
  assumes "run_handler env now g r st = (Next r', st')"
  shows "envelope r' = envelope r"
proof (cases g)
  case Static
  with assms show ?thesis by (auto dest: static_Next)
next
  case RawBody
  with assms show ?thesis by (auto simp: raw_def dest: read_body_envelope)
next
  case JsonParser
  with assms show ?thesis by (auto simp: json_def dest: read_body_envelope)
next
  case Urlencoded
  with assms show ?thesis by (auto simp: urlencoded_def dest: read_body_envelope)
qed (use assms in \<open>auto simp: stage_defs envelope_def Let_def dest: of_handled_Next
       split: if_splits\<close>)

lemma layer_match_envelope:
  "envelope r' = envelope r \<Longrightarrow> layer_match m r' = layer_match m r"
  by (cases m) (simp_all add: envelope_def path_def)

lemma visit_sent: "mode w = Sent resp \<Longrightarrow> visit env now w l = w"
  by (cases l) simp

declare visit.simps [simp del]

lemma walk_sent: "mode w = Sent resp \<Longrightarrow> foldl (visit env now) w ls = w"
  by (induction ls) (simp_all add: visit_sent)

lemma visit_cases:
  obtains (skip) "visit env now w (m, g) = w"
  | (call) r out st' where "mode w = Running r" "layer_match m r" "\<not> is_error_handler g"
      "run_handler env now g r (store w) = (out, st')"
      "visit env now w (m, g) = \<lparr>calls = calls w @ [(g, r, out)], mode = after r out, store = st'\<rparr>"
  | (rescue) e r where "mode w = Erring e r" "layer_match m r" "is_error_handler g"
      "visit env now w (m, g) =
         w\<lparr>calls := calls w @ [(g, r, Respond (globalErrorHandler env e))],
           mode := Sent (globalErrorHandler env e)\<rparr>"
proof (cases "mode w")
  case (Running r)
  show ?thesis
  proof (cases "layer_match m r \<and> \<not> is_error_handler g")
    case True
    obtain out st' where "run_handler env now g r (store w) = (out, st')" by force
    with Running True show ?thesis by (intro call [of r out st']) (simp_all add: visit.simps)
  next
    case False
    with Running show ?thesis by (intro skip) (auto simp: visit.simps)
  qed
next
  case (Erring e r)
  show ?thesis
  proof (cases "layer_match m r \<and> is_error_handler g")
    case True
    with Erring show ?thesis by (intro rescue [of e r]) (simp_all add: visit.simps)
  next
    case False
    with Erring show ?thesis by (intro skip) (auto simp: visit.simps)
  qed
next
  case (Sent resp)
  then show ?thesis by (intro skip) (simp add: visit.simps)
qed


lemma after_request:
  "mode_request (after r out) = Some r' \<Longrightarrow> out = Next r' \<or> ((\<exists>e. out = Fail e) \<and> r' = r)"
  by (cases out) (auto simp: mode_request_def)

lemma addressed_visit:
  assumes "addressed r0 w"
  shows "addressed r0 (visit env now w l)"
proof -
  obtain m g where l: "l = (m, g)" by (cases l)
  show ?thesis
  proof (cases rule: visit_cases [of env now w m g])
    case skip
    with assms l show ?thesis by simp
  next
    case (call r out st')
    from assms call(1) have er: "envelope r = envelope r0"
      by (simp add: addressed_def mode_request_def)
    have "\<forall>r'. mode_request (after r out) = Some r' \<longrightarrow> envelope r' = envelope r0"
    proof (intro allI impI)
      fix r' assume "mode_request (after r out) = Some r'"
      from after_request [OF this] show "envelope r' = envelope r0"
      proof
        assume "out = Next r'"
        with call(4) run_handler_envelope er show ?thesis by metis
      next
        assume "(\<exists>e. out = Fail e) \<and> r' = r"
        with er show ?thesis by simp
      qed
    qed
    with assms er show ?thesis
      by (simp add: l call(5) addressed_def)
  next
    case (rescue e r)
    from assms rescue(1) have "envelope r = envelope r0"
      by (simp add: addressed_def mode_request_def)
    with assms show ?thesis
      by (simp add: l rescue(4) addressed_def mode_request_def)
  qed
qed

lemma addressed_walk: "addressed r0 w \<Longrightarrow> addressed r0 (walk_on env now w ls)"
  by (induction ls arbitrary: w) (simp_all add: addressed_visit)

lemma addressed_start: "addressed r (start r st)"
  by (simp add: addressed_def start_def mode_request_def)

lemma justified_mono: "justified env now ls w \<Longrightarrow> justified env now (ls @ ls') w"
  by (fastforce simp: justified_def)

lemma justified_visit:
  assumes "justified env now ls w"
  shows "justified env now (ls @ [l]) (visit env now w l)"
proof -
  obtain m g where l: "l = (m, g)" by (cases l)
  note old = justified_mono [OF assms, of "[l]"]
  show ?thesis
  proof (cases rule: visit_cases [of env now w m g])
    case skip
    with old l show ?thesis by simp
  next
    case (call r out st')
    from call(4) have "out = fst (run_handler env now g r (store w))" by simp
    with old call(2,3) show ?thesis
      by (auto simp: l call(5) justified_def)
  next
    case (rescue e r)
    with old show ?thesis
      by (auto simp: l justified_def)
  qed
qed

lemma justified_walk: "justified env now ls (walk_on env now (start r st) ls)"
proof (induction ls rule: rev_induct)
  case Nil
  then show ?case by (simp add: justified_def start_def)
next
  case (snoc l ls)
  from justified_visit [OF snoc.IH, of l] show ?case by simp
qed

lemma visit_new_call:
  "c \<in> set (calls (visit env now w l)) \<Longrightarrow> c \<in> set (calls w) \<or> fst c = snd l"
proof -
  assume c: "c \<in> set (calls (visit env now w l))"
  obtain m g where l: "l = (m, g)" by (cases l)
  show ?thesis
  proof (cases rule: visit_cases [of env now w m g])
    case skip
    with c l show ?thesis by simp
  next
    case (call r out st')
    with c l show ?thesis by auto
  next
    case (rescue e r)
    with c l show ?thesis by auto
  qed
qed

lemma walk_new_call:
  "c \<in> set (calls (walk_on env now w ls)) \<Longrightarrow> c \<in> set (calls w) \<or> fst c \<in> snd ` set ls"
proof (induction ls arbitrary: w)
  case Nil
  then show ?case by simp
next
  case (Cons l ls)
  from Cons.IH [of "visit env now w l"] Cons.prems
  have "c \<in> set (calls (visit env now w l)) \<or> fst c \<in> snd ` set ls" by simp
  with visit_new_call [of c env now w l] show ?case by auto
qed

lemma called_at:
  assumes "(g, rg, out) \<in> set (calls (walk_on env now (start r st) (pre @ (m, g) # later)))"
    and "g \<notin> snd ` set pre" and "g \<notin> snd ` set later" and "\<not> is_error_handler g"
  shows "mode (walk_on env now (start r st) pre) = Running rg \<and> layer_match m rg \<and>
         out = fst (run_handler env now g rg (store (walk_on env now (start r st) pre)))"
proof -
  let ?w1 = "walk_on env now (start r st) pre"
  let ?w2 = "visit env now ?w1 (m, g)"
  from assms(1) have "(g, rg, out) \<in> set (calls (walk_on env now ?w2 later))" by simp
  from walk_new_call [OF this] assms(3) have in2: "(g, rg, out) \<in> set (calls ?w2)" by simp
  have not1: "(g, rg, out) \<notin> set (calls ?w1)"
  proof
    assume "(g, rg, out) \<in> set (calls ?w1)"
    from walk_new_call [OF this] assms(2) show False by (simp add: start_def)
  qed
  show ?thesis
  proof (cases rule: visit_cases [of env now ?w1 m g])
    case skip
    with in2 not1 show ?thesis by simp
  next
    case (call r1 out1 st')
    with in2 not1 have "rg = r1" "out = out1" by auto
    with call show ?thesis by simp
  next
    case (rescue e r1)
    with assms(4) show ?thesis by simp
  qed
qed

lemma visit_running:
  "mode (visit env now w l) = Running r' \<Longrightarrow> \<exists>r. mode w = Running r"
proof -
  assume a: "mode (visit env now w l) = Running r'"
  obtain m g where l: "l = (m, g)" by (cases l)
  show ?thesis
  proof (cases rule: visit_cases [of env now w m g])
    case skip
    with a l show ?thesis by simp
  next
    case (call r out st')
    then show ?thesis by simp
  next
    case (rescue e r)
    with a l show ?thesis by simp
  qed
qed

lemma calls_visit_grow: "set (calls w) \<subseteq> set (calls (visit env now w l))"
proof -
  obtain m g where l: "l = (m, g)" by (cases l)
  show ?thesis
    by (cases rule: visit_cases [of env now w m g]) (auto simp: l)
qed

lemma after_Running: "after r out = Running r' \<Longrightarrow> out = Next r'"
  by (cases out) auto

lemma running_through:
  "mode (walk_on env now (start r st) pre) = Running r' \<Longrightarrow>
     \<forall>(m, g) \<in> set pre. layer_match m r \<and> \<not> is_error_handler g \<longrightarrow>
        (\<exists>rg rg'. (g, rg, Next rg') \<in> set (calls (walk_on env now (start r st) pre)))"
proof (induction pre arbitrary: r' rule: rev_induct)
  case Nil
  then show ?case by simp
next
  case (snoc l pre)
  let ?w = "walk_on env now (start r st) pre"
  obtain m g where l: "l = (m, g)" by (cases l)
  from snoc.prems have run': "mode (visit env now ?w l) = Running r'" by simp
  from visit_running [OF this] obtain r1 where r1: "mode ?w = Running r1" by blast
  have "addressed r ?w" by (rule addressed_walk [OF addressed_start])
  with r1 have e1: "envelope r1 = envelope r"
    by (simp add: addressed_def mode_request_def)
  note old = snoc.IH [OF r1]
  have grow: "set (calls ?w) \<subseteq> set (calls (visit env now ?w l))"
    by (rule calls_visit_grow)
  have new: "layer_match m r \<and> \<not> is_error_handler g \<longrightarrow>
      (\<exists>rg rg'. (g, rg, Next rg') \<in> set (calls (visit env now ?w l)))"
  proof
    assume a: "layer_match m r \<and> \<not> is_error_handler g"
    with layer_match_envelope [OF e1, of m] have lm: "layer_match m r1" by simp
    obtain out st' where rh: "run_handler env now g r1 (store ?w) = (out, st')" by force
    with r1 lm a have v: "visit env now ?w (m, g) =
        \<lparr>calls = calls ?w @ [(g, r1, out)], mode = after r1 out, store = st'\<rparr>"
      by (simp add: visit.simps)
    with run' l have "after r1 out = Running r'" by simp
    from after_Running [OF this] v l
    show "\<exists>rg rg'. (g, rg, Next rg') \<in> set (calls (visit env now ?w l))" by auto
  qed
  from old grow new show ?case
    by (auto simp: l) blast+
qed


lemma unwritten:
  "\<not> writes g \<Longrightarrow> run_handler env now g r st = (Next r', st') \<Longrightarrow> r' = r"
  by (cases g)
     (auto simp: writes_def cors_def limiter_def not_found_def Let_def
           dest: of_handled_Next static_Next split: if_splits option.splits)

lemma running_unwritten:
  "mode (walk_on env now (start r st) pre) = Running r' \<Longrightarrow>
     \<forall>(m, g) \<in> set pre. layer_match m r \<longrightarrow> \<not> writes g \<Longrightarrow> r' = r"
proof (induction pre arbitrary: r' rule: rev_induct)
  case Nil
  then show ?case by (simp add: start_def)
next
  case (snoc l pre)
  let ?w = "walk_on env now (start r st) pre"
  obtain m g where l: "l = (m, g)" by (cases l)
  from snoc.prems(1) have run': "mode (visit env now ?w (m, g)) = Running r'" by (simp add: l)
  from visit_running [OF this] obtain r1 where r1: "mode ?w = Running r1" by blast
  from snoc.prems(2) have "\<forall>(m, g) \<in> set pre. layer_match m r \<longrightarrow> \<not> writes g" by simp
  from snoc.IH [OF r1 this] have eq: "r1 = r" .
  show ?case
  proof (cases rule: visit_cases [of env now ?w m g])
    case skip
    with run' r1 eq show ?thesis by simp
  next
    case (call r2 out st')
    with r1 eq have r2: "r2 = r" by simp
    from run' call(5) have "after r2 out = Running r'" by simp
    from after_Running [OF this] have out: "out = Next r'" .
    from snoc.prems(2) call(2) r2 l have "\<not> writes g" by simp
    from unwritten [OF this] call(4) out r2 show ?thesis by simp
  next
    case (rescue e r2)
    with r1 show ?thesis by simp
  qed
qed

lemma keeps_running:
  "mode w = Running r \<Longrightarrow>
     \<forall>(m, g) \<in> set ls. layer_match m r \<and> \<not> is_error_handler g \<longrightarrow>
        (\<forall>st. fst (run_handler env now g r st) = Next r) \<Longrightarrow>
     mode (walk_on env now w ls) = Running r"
proof (induction ls arbitrary: w)
  case Nil
  then show ?case by simp
next
  case (Cons l ls)
  obtain m g where l: "l = (m, g)" by (cases l)
  have "mode (visit env now w (m, g)) = Running r"
  proof (cases rule: visit_cases [of env now w m g])
    case skip
    with Cons.prems(1) show ?thesis by simp
  next
    case (call r1 out st')
    with Cons.prems(1) have r1: "r1 = r" by simp
    from Cons.prems(2) call(2,3) r1 l
    have "fst (run_handler env now g r (store w)) = Next r" by simp
    with call(4) r1 have "out = Next r" by simp
    with call(5) show ?thesis by simp
  next
    case (rescue e r1)
    with Cons.prems(1) show ?thesis by simp
  qed
  from Cons.IH [OF this] Cons.prems(2) show ?case by (simp add: l)
qed

lemma run_handler_store:
  "g \<noteq> Limiter \<Longrightarrow> run_handler env now g r st = (out, st') \<Longrightarrow> st' = st"
  by (cases g) auto

lemma store_kept:
  "Limiter \<notin> snd ` set ls \<Longrightarrow> store (walk_on env now w ls) = store w"
proof (induction ls arbitrary: w)
  case Nil
  then show ?case by simp
next
  case (Cons l ls)
  obtain m g where l: "l = (m, g)" by (cases l)
  from Cons.prems l have g: "g \<noteq> Limiter" by auto
  have "store (visit env now w (m, g)) = store w"
  proof (cases rule: visit_cases [of env now w m g])
    case skip
    then show ?thesis by simp
  next
    case (call r out st')
    from run_handler_store [OF g call(4)] call(5) show ?thesis by simp
  next
    case (rescue e r)
    then show ?thesis by simp
  qed
  with Cons.IH [of "visit env now w (m, g)"] Cons.prems show ?case by (simp add: l)
qed

lemma shaped_start: "shaped env (start r st)"
  by (simp add: shaped_def start_def all_next_def)

lemma shaped_visit:
  assumes "shaped env w"
  shows "shaped env (visit env now w l)"
proof -
  obtain m g where l: "l = (m, g)" by (cases l)
  show ?thesis
  proof (cases rule: visit_cases [of env now w m g])
    case skip
    with assms l show ?thesis by simp
  next
    case (call r out st')
    from assms call(1) have an: "all_next (calls w)" by (simp add: shaped_def)
    show ?thesis
    proof (cases out)
      case (Next r')
      with an show ?thesis
        by (simp add: l call(5) shaped_def all_next_def)
    next
      case (Fail e)
      with an show ?thesis
        by (simp add: l call(5) shaped_def)
    next
      case (Respond resp)
      with an call(3) show ?thesis
        by (simp add: l call(5) shaped_def)
    qed
  next
    case (rescue e r)
    from assms rescue(1) obtain cs f where "calls w = cs @ [(f, r, Fail e)]" "all_next cs"
      by (auto simp: shaped_def)
    with rescue(3) show ?thesis
      by (simp add: l rescue(4) shaped_def)
  qed
qed

lemma shaped_walk: "shaped env w \<Longrightarrow> shaped env (walk_on env now w ls)"
  by (induction ls arbitrary: w) (simp_all add: shaped_visit)


section \<open>The stack of the application\<close>

lemma app_front: "app md = front md @ behind"
  by (simp add: app_def front_def behind_def)

lemma app_at:
  "i < 18 \<Longrightarrow> app md = (front md @ take i behind) @ behind ! i # drop (Suc i) behind"
proof -
  assume "i < 18"
  then have "i < length behind" by (simp add: behind_def)
  from id_take_nth_drop [OF this] show ?thesis by (simp add: app_front)
qed

lemma front_handlers: "snd ` set (front md) \<subseteq> {Cors, CorsPreflight, Static, Helmet, Morgan}"
  by (auto simp: front_def)

lemma mount_root [simp]: "mount_match ''/'' p"
  by (simp add: mount_match_def)

lemma route_star [simp]: "route_match ''*'' p"
  by (simp add: route_match_def)

lemma lower_api: "lower ''/api'' = ''/api''"
  by (simp add: lower_def lower_char_def)

lemma not_under_api:
  "\<not> prefix ''/api'' (lower p) \<Longrightarrow> \<not> mount_match ''/api'' p"
proof
  assume np: "\<not> prefix ''/api'' (lower p)" and "mount_match ''/api'' p"
  then have "take (length ''/api'') (lower p) = ''/api''"
    by (simp add: mount_match_def lower_api)
  then have "prefix ''/api'' (lower p)"
    by (metis take_is_prefix)
  with np show False by simp
qed

lemmas path_defs = path_def pathname_def cut_def after_authority_def

lemma handle_walk:
  "handle env now h st = walk_on env now (start (incoming h) st) (app (node_env env))"
  by (simp add: handle_def dispatch_def)

lemma incoming_envelope: "envelope (incoming h) = envelope h"
  by (simp add: envelope_def incoming_def)

lemma path_envelope: "envelope r = envelope r' \<Longrightarrow> path r = path r'"
  by (simp add: envelope_def path_def)

lemma called_matches:
  assumes "g \<in> set (stages (handle env now h st))"
  shows "\<exists>m. (m, g) \<in> set (app (node_env env)) \<and> layer_match m h"
proof -
  from assms obtain rg out where c: "(g, rg, out) \<in> set (calls (handle env now h st))"
    by (auto simp: stages_def)
  have "justified env now (app (node_env env)) (handle env now h st)"
    unfolding handle_walk by (rule justified_walk)
  with c obtain m where m: "(m, g) \<in> set (app (node_env env))" "layer_match m rg"
    by (auto simp: justified_def)
  have "addressed (incoming h) (handle env now h st)"
    unfolding handle_walk by (rule addressed_walk [OF addressed_start])
  with c have "envelope rg = envelope h"
    by (auto simp: addressed_def incoming_envelope)
  from layer_match_envelope [OF this] m show ?thesis by auto
qed

lemma limiter_layer:
  "(m, Limiter) \<in> set (app md) \<Longrightarrow> m = Use ''/api''"
  by (auto simp: app_def split: if_splits)

lemma store_changed:
  "store (walk_on env now w ls) = store w \<or>
   Limiter \<in> fst ` set (calls (walk_on env now w ls))"
proof (induction ls rule: rev_induct)
  case Nil
  then show ?case by simp
next
  case (snoc l ls)
  let ?w = "walk_on env now w ls"
  obtain m g where l: "l = (m, g)" by (cases l)
  have grow: "set (calls ?w) \<subseteq> set (calls (visit env now ?w (m, g)))"
    by (rule calls_visit_grow)
  have "store (visit env now ?w (m, g)) = store ?w \<or>
      Limiter \<in> fst ` set (calls (visit env now ?w (m, g)))"
  proof (cases rule: visit_cases [of env now ?w m g])
    case skip
    then show ?thesis by simp
  next
    case (call r out st')
    show ?thesis
    proof (cases "g = Limiter")
      case True
      with call(5) show ?thesis by simp
    next
      case False
      from run_handler_store [OF False call(4)] call(5) show ?thesis by simp
    qed
  next
    case (rescue e r)
    then show ?thesis by simp
  qed
  with snoc.IH grow show ?case
    by (auto simp: l)
qed

lemma off_api_single:
  assumes "\<not> mount_match ''/api'' (path h)"
  shows "Limiter \<notin> set (stages (handle env now h st)) \<and> store (handle env now h st) = st"
proof -
  have no: "Limiter \<notin> set (stages (handle env now h st))"
  proof
    assume "Limiter \<in> set (stages (handle env now h st))"
    from called_matches [OF this] limiter_layer have "layer_match (Use ''/api'') h" by blast
    with assms show False by simp
  qed
  from store_changed [of env now "start (incoming h) st" "app (node_env env)"] no
  have "store (handle env now h st) = st"
    by (auto simp: handle_walk stages_def start_def)
  with no show ?thesis by simp
qed

text \<open>
  C9. The rate limiter is mounted on \<open>/api\<close> only. However many requests are served,
  if none of their paths begins with \<open>/api\<close> (in any letter case, as Express compares
  paths), the limiter is never called, so that it answers none of them, and its store,
  the quota of every client, is what it was. The path is the one the router reads from
  the request target: a target in absolute form is taken without its scheme and host.
  \<open>POST /webhook-checkout\<close> and the pages under \<open>/\<close> are such requests.
\<close>

theorem limiter_only_under_api:
  assumes "\<forall>(now, h) \<in> set reqs. \<not> prefix ''/api'' (lower (path h))"
  shows "snd (serve env st reqs) = st \<and>
         (\<forall>w \<in> set (fst (serve env st reqs)). Limiter \<notin> set (stages w))"
  using assms
proof (induction reqs)
  case Nil
  then show ?case by simp
next
  case (Cons a reqs)
  obtain now h where a: "a = (now, h)" by (cases a)
  from Cons.prems a have "\<not> prefix ''/api'' (lower (path h))" by simp
  from off_api_single [OF not_under_api [OF this], of env now st]
  have one: "Limiter \<notin> set (stages (handle env now h st))" "store (handle env now h st) = st"
    by simp_all
  from Cons.prems have "\<forall>(now, h) \<in> set reqs. \<not> prefix ''/api'' (lower (path h))" by simp
  from Cons.IH [OF this] one show ?case
    by (cases "serve env st reqs") (simp add: a)
qed


theorem limiter_only_under_api_witness:
  "\<not> prefix ''/api'' (lower (path (post ''/webhook-checkout'' ''10.0.0.1'' ApplicationJson ''{}''))) \<and>
   \<not> prefix ''/api'' (lower (path (get ''/overview'' [] ''10.0.0.1''))) \<and>
   \<not> prefix ''/api'' (lower (path (get ''http://api.example.com/overview'' [] ''10.0.0.1''))) \<and>
   snd (serve quiet fresh_store
          [(0, post ''/webhook-checkout'' ''10.0.0.1'' ApplicationJson ''{}''),
           (1, get ''/overview'' [] ''10.0.0.1''),
           (2, get ''http://api.example.com/overview'' [] ''10.0.0.1'')]) = fresh_store \<and>
   Limiter \<notin> set (stages (fst (serve quiet fresh_store
          [(0, post ''/webhook-checkout'' ''10.0.0.1'' ApplicationJson ''{}''),
           (1, get ''/overview'' [] ''10.0.0.1''),
           (2, get ''http://api.example.com/overview'' [] ''10.0.0.1'')]) ! 0)) \<and>
   Limiter \<notin> set (stages (fst (serve quiet fresh_store
          [(0, post ''/webhook-checkout'' ''10.0.0.1'' ApplicationJson ''{}''),
           (1, get ''/overview'' [] ''10.0.0.1''),
           (2, get ''http://api.example.com/overview'' [] ''10.0.0.1'')]) ! 1)) \<and>
   Limiter \<notin> set (stages (fst (serve quiet fresh_store
          [(0, post ''/webhook-checkout'' ''10.0.0.1'' ApplicationJson ''{}''),
           (1, get ''/overview'' [] ''10.0.0.1''),
           (2, get ''http://api.example.com/overview'' [] ''10.0.0.1'')]) ! 2))"
proof -
  have a: "\<not> prefix ''/api'' (lower (path (post ''/webhook-checkout'' ''10.0.0.1'' ApplicationJson ''{}'')))"
    by (simp add: post_def path_defs lower_def lower_char_def)
  have b: "\<not> prefix ''/api'' (lower (path (get ''/overview'' [] ''10.0.0.1'')))"
    by (simp add: get_def path_defs lower_def lower_char_def)
  have c: "\<not> prefix ''/api'' (lower (path (get ''http://api.example.com/overview'' [] ''10.0.0.1'')))"
    by (simp add: get_def path_defs lower_def lower_char_def)
  from a b c have "\<forall>(now, h) \<in> set [(0::nat, post ''/webhook-checkout'' ''10.0.0.1'' ApplicationJson ''{}''),
           (1, get ''/overview'' [] ''10.0.0.1''),
           (2, get ''http://api.example.com/overview'' [] ''10.0.0.1'')].
      \<not> prefix ''/api'' (lower (path h))"
    by simp
  note t = limiter_only_under_api [OF this, of quiet fresh_store]
  let ?ws = "fst (serve quiet fresh_store
      [(0, post ''/webhook-checkout'' ''10.0.0.1'' ApplicationJson ''{}''),
       (1, get ''/overview'' [] ''10.0.0.1''),
       (2, get ''http://api.example.com/overview'' [] ''10.0.0.1'')])"
  have "length ?ws = 3" by (simp split: prod.splits)
  then have "?ws ! 0 \<in> set ?ws" "?ws ! 1 \<in> set ?ws" "?ws ! 2 \<in> set ?ws" by simp_all
  with t have "Limiter \<notin> set (stages (?ws ! 0))" "Limiter \<notin> set (stages (?ws ! 1))"
    "Limiter \<notin> set (stages (?ws ! 2))"
    by blast+
  with t a b c show ?thesis by blast
qed

lemma calls_extend: "\<exists>cs. calls (walk_on env now w ls) = calls w @ cs"
proof (induction ls arbitrary: w)
  case Nil
  then show ?case by simp
next
  case (Cons l ls)
  obtain m g where l: "l = (m, g)" by (cases l)
  have "\<exists>cs. calls (visit env now w (m, g)) = calls w @ cs"
    by (cases rule: visit_cases [of env now w m g]) auto
  with Cons.IH [of "visit env now w (m, g)"] show ?case
    by (auto simp: l)
qed

lemma called_at_split:
  assumes "(g, rg, out) \<in> set (calls (walk_on env now (start r st) (pre @ (m, g) # later)))"
    and "g \<notin> snd ` set pre" and "g \<notin> snd ` set later" and "\<not> is_error_handler g"
  shows "\<exists>cs. calls (walk_on env now (start r st) (pre @ (m, g) # later)) =
           calls (walk_on env now (start r st) pre) @ (g, rg, out) # cs"
proof -
  let ?w1 = "walk_on env now (start r st) pre"
  from called_at [OF assms]
  have run: "mode ?w1 = Running rg" and lm: "layer_match m rg"
    and out: "out = fst (run_handler env now g rg (store ?w1))" by simp_all
  from run lm assms(4) out have "calls (visit env now ?w1 (m, g)) = calls ?w1 @ [(g, rg, out)]"
    by (simp add: visit.simps split: prod.splits)
  with calls_extend [of env now "visit env now ?w1 (m, g)" later] show ?thesis
    by auto
qed

lemma front_set: "set (front md) \<subseteq>
    {(Use ''/'', Cors), (Verb OPTIONS ''*'', CorsPreflight), (Use ''/'', Static),
     (Use ''/'', Helmet), (Use ''/'', Morgan)}"
  by (auto simp: front_def)

lemma router_sanitized:
  assumes "i \<in> {12, 13, 14, 15}" and "behind ! i = (m, g)"
    and "g \<in> set (stages (handle env now h st))"
  shows "\<exists>before later. stages (handle env now h st) = before @ g # later \<and>
           MongoSanitize \<in> set before \<and> Xss \<in> set before"
proof -
  let ?pre = "front (node_env env) @ take i behind"
  from assms(1) have i: "i < 18" by auto
  from app_at [OF i, of "node_env env"] assms(2)
  have split: "app (node_env env) = ?pre @ (m, g) # drop (Suc i) behind" by simp
  from assms(1,2) front_handlers [of "node_env env"]
  have a: "g \<notin> snd ` set ?pre"
    by (auto simp: behind_def)
  from assms(1,2) have b: "g \<notin> snd ` set (drop (Suc i) behind)"
    by (auto simp: behind_def)
  from assms(1,2) have c: "\<not> is_error_handler g"
    by (auto simp: behind_def is_error_handler_def)
  from assms(1) have d: "(Use ''/'', MongoSanitize) \<in> set ?pre" "(Use ''/'', Xss) \<in> set ?pre"
    by (auto simp: behind_def)
  have e: "\<not> is_error_handler MongoSanitize" "\<not> is_error_handler Xss"
    by (simp_all add: is_error_handler_def)
  let ?w1 = "walk_on env now (start (incoming h) st) ?pre"
  from assms(3) obtain rg out where "(g, rg, out) \<in> set (calls (handle env now h st))"
    by (auto simp: stages_def)
  then have cc: "(g, rg, out) \<in> set (calls (walk_on env now (start (incoming h) st)
      (?pre @ (m, g) # drop (Suc i) behind)))"
    by (simp only: handle_walk split)
  from called_at [OF cc a b c] have run: "mode ?w1 = Running rg" by simp
  note through = running_through [OF run]
  from bspec [OF through d(1)] e(1)
  obtain r1 r1' where "(MongoSanitize, r1, Next r1') \<in> set (calls ?w1)" by auto
  moreover from bspec [OF through d(2)] e(2)
  obtain r2 r2' where "(Xss, r2, Next r2') \<in> set (calls ?w1)" by auto
  ultimately have s: "MongoSanitize \<in> set (map fst (calls ?w1))" "Xss \<in> set (map fst (calls ?w1))"
    by force+
  from called_at_split [OF cc a b c] obtain cs where
    "calls (handle env now h st) = calls ?w1 @ (g, rg, out) # cs"
    by (auto simp only: handle_walk split)
  then have "stages (handle env now h st) = map fst (calls ?w1) @ g # map fst cs"
    by (simp add: stages_def)
  with s show ?thesis by blast
qed


lemma webhook_terminal:
  assumes "req_method h = POST" and "route_match ''/webhook-checkout'' (path h)"
    and "\<forall>r. webhookCheckout env r \<noteq> PassOn"
    and "i \<in> {3, 4, 6, 7}" and "behind ! i = (m, g)"
  shows "g \<notin> set (stages (handle env now h st))"
proof
  assume called: "g \<in> set (stages (handle env now h st))"
  let ?pre = "front (node_env env) @ take i behind"
  let ?w1 = "walk_on env now (start (incoming h) st) ?pre"
  from assms(4) have i: "i < 18" by auto
  from app_at [OF i, of "node_env env"] assms(5)
  have split: "app (node_env env) = ?pre @ (m, g) # drop (Suc i) behind" by simp
  from assms(4,5) front_handlers [of "node_env env"]
  have a: "g \<notin> snd ` set ?pre"
    by (auto simp: behind_def)
  from assms(4,5) have b: "g \<notin> snd ` set (drop (Suc i) behind)"
    by (auto simp: behind_def)
  from assms(4,5) have c: "\<not> is_error_handler g"
    by (auto simp: behind_def is_error_handler_def)
  from assms(4) have d: "(Verb POST ''/webhook-checkout'', WebhookCheckout) \<in> set ?pre"
    by (auto simp: behind_def)
  from called obtain rg out where "(g, rg, out) \<in> set (calls (handle env now h st))"
    by (auto simp: stages_def)
  then have cc: "(g, rg, out) \<in> set (calls (walk_on env now (start (incoming h) st)
      (?pre @ (m, g) # drop (Suc i) behind)))"
    by (simp only: handle_walk split)
  from called_at [OF cc a b c] have run: "mode ?w1 = Running rg" by simp
  have lm: "layer_match (Verb POST ''/webhook-checkout'') (incoming h)"
    using assms(1,2) by (simp add: incoming_def path_def)
  from bspec [OF running_through [OF run] d] lm
  obtain rw rw' where w: "(WebhookCheckout, rw, Next rw') \<in> set (calls ?w1)"
    by (auto simp: is_error_handler_def)
  have "justified env now ?pre ?w1" by (rule justified_walk)
  with w obtain st' where "Next rw' = fst (run_handler env now WebhookCheckout rw st')"
    by (auto simp: justified_def is_error_handler_def)
  then have "of_handled rw (webhookCheckout env rw) = Next rw'" by simp
  from of_handled_Next [OF this] assms(3) show False by simp
qed

lemma route_match_self: "route_match p p"
  by (simp add: route_match_def)

text \<open>
  C10. For a \<open>POST /webhook-checkout\<close> request, with a webhook handler that is
  terminal (it answers or raises, and never passes the request on), neither sanitizer
  is called. And whenever one of the four API routers is called, both sanitizers have
  been called before it.
\<close>

theorem sanitizers_and_handlers:
  "(req_method h = POST \<and> path h = ''/webhook-checkout'' \<and> (\<forall>r. webhookCheckout env r \<noteq> PassOn) \<longrightarrow>
      MongoSanitize \<notin> set (stages (handle env now h st)) \<and>
      Xss \<notin> set (stages (handle env now h st))) \<and>
   (\<forall>g \<in> {TourRouter, UserRouter, ReviewRouter, BookingRouter}.
      g \<in> set (stages (handle env now h st)) \<longrightarrow>
      (\<exists>before later. stages (handle env now h st) = before @ g # later \<and>
         MongoSanitize \<in> set before \<and> Xss \<in> set before))"
proof (intro conjI impI ballI)
  assume a: "req_method h = POST \<and> path h = ''/webhook-checkout'' \<and> (\<forall>r. webhookCheckout env r \<noteq> PassOn)"
  then have rm: "route_match ''/webhook-checkout'' (path h)" by (simp add: route_match_self)
  from a have m: "req_method h = POST" and t: "\<forall>r. webhookCheckout env r \<noteq> PassOn" by simp_all
  show "MongoSanitize \<notin> set (stages (handle env now h st))"
    by (rule webhook_terminal [OF m rm t, of 6 "Use ''/''"]) (simp_all add: behind_def)
  show "Xss \<notin> set (stages (handle env now h st))"
    by (rule webhook_terminal [OF m rm t, of 7 "Use ''/''"]) (simp_all add: behind_def)
next
  fix g assume g: "g \<in> {TourRouter, UserRouter, ReviewRouter, BookingRouter}"
    and called: "g \<in> set (stages (handle env now h st))"
  have "\<exists>i m. i \<in> {12, 13, 14, 15} \<and> behind ! i = (m, g)"
  proof -
    have "behind ! 12 = (Use ''/api/v1/tours'', TourRouter)"
      "behind ! 13 = (Use ''/api/v1/users'', UserRouter)"
      "behind ! 14 = (Use ''/api/v1/reviews'', ReviewRouter)"
      "behind ! 15 = (Use ''/api/v1/bookings'', BookingRouter)"
      by (simp_all add: behind_def)
    with g show ?thesis by auto
  qed
  then obtain i m where "i \<in> {12, 13, 14, 15}" "behind ! i = (m, g)" by blast
  from router_sanitized [OF this called]
  show "\<exists>before later. stages (handle env now h st) = before @ g # later \<and>
         MongoSanitize \<in> set before \<and> Xss \<in> set before" .
qed

lemmas run_defs = handle_def dispatch_def app_def start_def visit.simps incoming_def
  path_def is_error_handler_def stages_def
lemmas stage_run_defs = cors_def static_def limiter_def resetAll_def windowMs_def max_requests_def
  raw_def json_def urlencoded_def read_body_def hasBody_def read_def contentstream_def
  getRawBody_def charset_of_def coding_of_def no_decoder_def text_of_def parse_json_def
  parse_form_def parameterCount_def kb_def mongoSanitize_def xss_def hpp_def
  request_time_def not_found_def hpp_object_def
lemmas match_defs = mount_match_def route_match_def lower_def lower_char_def

lemma tours_matches:
  "mount_match ''/api'' ''/api/v1/tours''"
  "mount_match ''/api/v1/tours'' ''/api/v1/tours''"
  "\<not> mount_match ''/api/v1/users'' ''/api/v1/tours''"
  "\<not> mount_match ''/api/v1/reviews'' ''/api/v1/tours''"
  "\<not> mount_match ''/api/v1/bookings'' ''/api/v1/tours''"
  "\<not> route_match ''/webhook-checkout'' ''/api/v1/tours''"
  "pathname ''/api/v1/tours'' = ''/api/v1/tours''"
  "pathname ''http://localhost/api/v1/tours'' = ''/api/v1/tours''"
  by (simp_all add: match_defs pathname_def cut_def after_authority_def)

lemma tours_run:
  "stages (handle quiet 0 (get ''/api/v1/tours'' [] ''10.0.0.1'') fresh_store) =
     [Cors, Static, Helmet, Limiter, JsonParser, Urlencoded, CookieParser, MongoSanitize, Xss,
      Hpp, Compression, RequestTime, ViewRouter, TourRouter, NotFound, GlobalErrorHandler]"
  by (simp add: run_defs stage_run_defs quiet_def get_def fresh_store_def tours_matches)


text \<open>
  A request whose target is in absolute form is routed by its path: the request
  \<open>GET http://localhost/api/v1/tours\<close> is under \<open>/api\<close>, and the limiter counts it.
\<close>

lemma absolute_form_run:
  "path (get ''http://localhost/api/v1/tours'' [] ''10.0.0.1'') = ''/api/v1/tours'' \<and>
   stages (handle quiet 0 (get ''http://localhost/api/v1/tours'' [] ''10.0.0.1'') fresh_store) =
     [Cors, Static, Helmet, Limiter, JsonParser, Urlencoded, CookieParser, MongoSanitize, Xss,
      Hpp, Compression, RequestTime, ViewRouter, TourRouter, NotFound, GlobalErrorHandler]"
  by (simp add: run_defs stage_run_defs quiet_def get_def fresh_store_def tours_matches)

theorem sanitizers_and_handlers_witness:
  "req_method (post ''/webhook-checkout'' ''10.0.0.1'' ApplicationJson ''{}'') = POST \<and>
   path (post ''/webhook-checkout'' ''10.0.0.1'' ApplicationJson ''{}'') = ''/webhook-checkout'' \<and>
   (\<forall>r. webhookCheckout quiet r \<noteq> PassOn) \<and>
   MongoSanitize \<notin> set (stages (handle quiet 0
       (post ''/webhook-checkout'' ''10.0.0.1'' ApplicationJson ''{}'') fresh_store)) \<and>
   Xss \<notin> set (stages (handle quiet 0
       (post ''/webhook-checkout'' ''10.0.0.1'' ApplicationJson ''{}'') fresh_store)) \<and>
   TourRouter \<in> set (stages (handle quiet 0 (get ''/api/v1/tours'' [] ''10.0.0.1'') fresh_store)) \<and>
   (\<exists>before later.
      stages (handle quiet 0 (get ''/api/v1/tours'' [] ''10.0.0.1'') fresh_store) =
        before @ TourRouter # later \<and>
      MongoSanitize \<in> set before \<and> Xss \<in> set before)"
proof -
  let ?wh = "post ''/webhook-checkout'' ''10.0.0.1'' ApplicationJson ''{}''"
  have a: "req_method ?wh = POST" "path ?wh = ''/webhook-checkout''"
    by (simp_all add: post_def path_defs)
  have b: "\<forall>r. webhookCheckout quiet r \<noteq> PassOn"
    by (simp add: quiet_def)
  have c: "TourRouter \<in> set (stages (handle quiet 0 (get ''/api/v1/tours'' [] ''10.0.0.1'') fresh_store))"
    by (simp add: tours_run)
  from sanitizers_and_handlers [of ?wh quiet 0 fresh_store] a b
  have d: "MongoSanitize \<notin> set (stages (handle quiet 0 ?wh fresh_store)) \<and>
      Xss \<notin> set (stages (handle quiet 0 ?wh fresh_store))"
    by blast
  from sanitizers_and_handlers [of "get ''/api/v1/tours'' [] ''10.0.0.1''" quiet 0 fresh_store] c
  have e: "\<exists>before later.
      stages (handle quiet 0 (get ''/api/v1/tours'' [] ''10.0.0.1'') fresh_store) =
        before @ TourRouter # later \<and>
      MongoSanitize \<in> set before \<and> Xss \<in> set before"
    by blast
  from a b c d e show ?thesis by blast
qed


section \<open>The webhook route\<close>

lemma webhook_not_api:
  "route_match ''/webhook-checkout'' p \<Longrightarrow> \<not> mount_match ''/api'' p"
  by (auto simp: route_match_def mount_match_def lower_api)
     (simp_all add: lower_def lower_char_def)

lemma limiter_front:
  "\<forall>(m, g) \<in> set (front md @ [(Use ''/api'', Limiter)]). layer_match m r \<longrightarrow> \<not> writes g"
  by (auto simp: front_def writes_def)

lemma front_passes_post:
  assumes "req_method r = POST" and "\<not> mount_match ''/api'' (path r)" and "mode w = Running r"
  shows "mode (walk_on env now w (front md @ [(Use ''/api'', Limiter)])) = Running r"
proof (rule keeps_running [OF assms(3)])
  show "\<forall>(m, g) \<in> set (front md @ [(Use ''/api'', Limiter)]).
      layer_match m r \<and> \<not> is_error_handler g \<longrightarrow> (\<forall>st. fst (run_handler env now g r st) = Next r)"
    using assms(1,2) by (auto simp: front_def cors_def static_def)
qed

lemma webhook_front:
  assumes "req_method h = POST" and "route_match ''/webhook-checkout'' (path h)"
  shows "mode (walk_on env now (start (incoming h) st)
           (front (node_env env) @ [(Use ''/api'', Limiter)])) = Running (incoming h)"
proof -
  have m: "req_method (incoming h) = POST" using assms(1) by (simp add: incoming_def)
  have p: "path (incoming h) = path h" by (simp add: incoming_def path_def)
  from webhook_not_api [OF assms(2)] p have "\<not> mount_match ''/api'' (path (incoming h))" by simp
  from front_passes_post [OF m this, of "start (incoming h) st" env now "node_env env"]
  show ?thesis by (simp add: start_def)
qed

lemma webhook_received:
  assumes "req_method h = POST" and "route_match ''/webhook-checkout'' (path h)"
    and "(WebhookCheckout, rw, out) \<in> set (calls (handle env now h st))"
  shows "raw env (incoming h) = Next rw"
proof -
  let ?pre0 = "front (node_env env) @ [(Use ''/api'', Limiter)]"
  let ?raw = "(Verb POST ''/webhook-checkout'', RawBody)"
  let ?w0 = "walk_on env now (start (incoming h) st) ?pre0"
  have split: "app (node_env env) =
      (?pre0 @ [?raw]) @ (Verb POST ''/webhook-checkout'', WebhookCheckout) # drop 3 behind"
    by (simp add: app_front behind_def)
  have a: "WebhookCheckout \<notin> snd ` set (?pre0 @ [?raw])"
    using front_handlers [of "node_env env"] by auto
  have b: "WebhookCheckout \<notin> snd ` set (drop 3 behind)"
    by (simp add: behind_def)
  have c: "\<not> is_error_handler WebhookCheckout"
    by (simp add: is_error_handler_def)
  from assms(3) have cc: "(WebhookCheckout, rw, out) \<in> set (calls (walk_on env now
      (start (incoming h) st) ((?pre0 @ [?raw]) @
         (Verb POST ''/webhook-checkout'', WebhookCheckout) # drop 3 behind)))"
    by (simp only: handle_walk split)
  from called_at [OF cc a b c]
  have run: "mode (visit env now ?w0 ?raw) = Running rw" by simp
  note r0 = webhook_front [OF assms(1,2), of env now st]
  have lm: "layer_match (Verb POST ''/webhook-checkout'') (incoming h)"
    using assms(1,2) by (simp add: incoming_def path_def)
  from r0 lm have "mode (visit env now ?w0 ?raw) = after (incoming h) (raw env (incoming h))"
    by (simp add: visit.simps is_error_handler_def)
  with run show ?thesis by (simp add: after_Running)
qed

lemma raw_unread:
  "\<not> (hasBody h \<and> contentType h = ApplicationJson) \<Longrightarrow>
     raw env (incoming h) = Next ((incoming h)\<lparr>body := EmptyObject\<rparr>)"
  by (auto simp: raw_def read_body_def incoming_def hasBody_def Let_def)

lemma raw_read:
  assumes "hasBody h" and "contentType h = ApplicationJson"
  shows "raw env (incoming h) =
     (if coding_of h \<notin> {''identity'', ''gzip'', ''deflate''}
      then Fail (unsupported_encoding (coding_of h))
      else if 100 * 1024 < length (body_bytes env h) then Fail too_large
      else if coding_of h = ''identity'' then
             Next ((incoming h)\<lparr>body := Buffer (rawBody h), parsed := True\<rparr>)
      else (case snd (inflate env (coding_of h) (rawBody h)) of
              Some msg \<Rightarrow> Fail (stream_error msg)
            | None \<Rightarrow> Next ((incoming h)\<lparr>body := Buffer (body_bytes env h), parsed := True\<rparr>)))"
proof -
  let ?r1 = "(incoming h)\<lparr>body := EmptyObject\<rparr>"
  have c: "coding_of ?r1 = coding_of h" "rawBody ?r1 = rawBody h" "framing ?r1 = framing h"
    by (simp_all add: coding_of_def incoming_def)
  from assms have "raw env (incoming h) = read env (100 * kb) None (\<lambda>bytes. Inr (Buffer bytes)) ?r1"
    by (simp add: raw_def read_body_def incoming_def hasBody_def Let_def)
  also have "\<dots> =
     (if coding_of h \<notin> {''identity'', ''gzip'', ''deflate''}
      then Fail (unsupported_encoding (coding_of h))
      else if 100 * 1024 < length (body_bytes env h) then Fail too_large
      else if coding_of h = ''identity'' then
             Next (?r1\<lparr>body := Buffer (rawBody h), parsed := True\<rparr>)
      else (case snd (inflate env (coding_of h) (rawBody h)) of
              Some msg \<Rightarrow> Fail (stream_error msg)
            | None \<Rightarrow> Next (?r1\<lparr>body := Buffer (body_bytes env h), parsed := True\<rparr>)))"
    by (auto simp: read_def contentstream_def getRawBody_def no_decoder_def text_of_def
        body_bytes_def kb_def c split: option.splits)
  finally show ?thesis by (simp split: option.splits)
qed

lemma raw_result:
  assumes "raw env (incoming h) = Next rw"
  shows "rawBody rw = rawBody h"
    and "\<not> (hasBody h \<and> contentType h = ApplicationJson) \<Longrightarrow> body rw = EmptyObject"
    and "hasBody h \<Longrightarrow> contentType h = ApplicationJson \<Longrightarrow> body rw = Buffer (body_bytes env h)"
proof -
  from read_body_Next [OF assms [unfolded raw_def]]
  show "rawBody rw = rawBody h" by (auto simp: incoming_def)
  {
    assume "\<not> (hasBody h \<and> contentType h = ApplicationJson)"
    from raw_unread [OF this, of env] assms show "body rw = EmptyObject" by auto
  }
  {
    assume "hasBody h" and "contentType h = ApplicationJson"
    from raw_read [OF this, of env] assms show "body rw = Buffer (body_bytes env h)"
      by (auto simp: body_bytes_def split: if_splits option.splits)
  }
qed

lemma erring_skips:
  "mode w = Erring e r \<Longrightarrow> \<forall>(m, g) \<in> set ls. \<not> is_error_handler g \<Longrightarrow>
     walk_on env now w ls = w"
proof (induction ls)
  case Nil
  then show ?case by simp
next
  case (Cons l ls)
  obtain m g where l: "l = (m, g)" by (cases l)
  from Cons.prems l have "visit env now w l = w" by (simp add: visit.simps)
  with Cons show ?case by simp
qed

lemma erring_answered:
  assumes "mode w = Erring e r"
  shows "mode (walk_on env now w (drop 2 behind)) = Sent (globalErrorHandler env e)"
proof -
  have split: "drop 2 behind = take 15 (drop 2 behind) @ [(Use ''/'', GlobalErrorHandler)]"
    by (simp add: behind_def)
  have "\<forall>(m, g) \<in> set (take 15 (drop 2 behind)). \<not> is_error_handler g"
    by (simp add: behind_def is_error_handler_def)
  from erring_skips [OF assms this, of env now] assms
  have "mode (walk_on env now w (take 15 (drop 2 behind) @ [(Use ''/'', GlobalErrorHandler)])) =
      Sent (globalErrorHandler env e)"
    by (simp add: visit.simps is_error_handler_def)
  with split show ?thesis by simp
qed

lemma webhook_walk:
  assumes "req_method h = POST" and "route_match ''/webhook-checkout'' (path h)"
  shows "handle env now h st =
     walk_on env now
       (visit env now
          (walk_on env now (start (incoming h) st)
             (front (node_env env) @ [(Use ''/api'', Limiter)]))
          (Verb POST ''/webhook-checkout'', RawBody))
       (drop 2 behind)"
    and "mode (visit env now
          (walk_on env now (start (incoming h) st)
             (front (node_env env) @ [(Use ''/api'', Limiter)]))
          (Verb POST ''/webhook-checkout'', RawBody)) =
       after (incoming h) (raw env (incoming h))"
proof -
  let ?pre0 = "front (node_env env) @ [(Use ''/api'', Limiter)]"
  let ?raw = "(Verb POST ''/webhook-checkout'', RawBody)"
  let ?w0 = "walk_on env now (start (incoming h) st) ?pre0"
  have split: "app (node_env env) = ?pre0 @ ?raw # drop 2 behind"
    by (simp add: app_front behind_def)
  then show "handle env now h st = walk_on env now (visit env now ?w0 ?raw) (drop 2 behind)"
    by (simp add: handle_walk)
  note r0 = webhook_front [OF assms(1,2), of env now st]
  have lm: "layer_match (Verb POST ''/webhook-checkout'') (incoming h)"
    using assms(1,2) by (simp add: incoming_def path_def)
  from r0 lm show "mode (visit env now ?w0 ?raw) = after (incoming h) (raw env (incoming h))"
    by (simp add: visit.simps is_error_handler_def)
qed

lemma webhook_reached:
  assumes "req_method h = POST" and "route_match ''/webhook-checkout'' (path h)"
    and "raw env (incoming h) = Next rw"
  shows "WebhookCheckout \<in> set (stages (handle env now h st))"
proof -
  let ?pre0 = "front (node_env env) @ [(Use ''/api'', Limiter)]"
  let ?raw = "(Verb POST ''/webhook-checkout'', RawBody)"
  let ?hook = "(Verb POST ''/webhook-checkout'', WebhookCheckout)"
  let ?w0 = "walk_on env now (start (incoming h) st) ?pre0"
  note w = webhook_walk [OF assms(1,2), of env now st]
  have d: "drop 2 behind = ?hook # drop 3 behind" by (simp add: behind_def)
  have lm: "layer_match (Verb POST ''/webhook-checkout'') (incoming h)"
    using assms(1,2) by (simp add: incoming_def path_def)
  from w(2) assms(3) have r1: "mode (visit env now ?w0 ?raw) = Running rw" by simp
  have "envelope rw = envelope (incoming h)"
    using run_handler_envelope [of env now RawBody "incoming h" st rw st] assms(3) by simp
  from layer_match_envelope [OF this] lm
  have lm': "layer_match (Verb POST ''/webhook-checkout'') rw" by simp
  let ?w2 = "visit env now (visit env now ?w0 ?raw) ?hook"
  from r1 lm' have "WebhookCheckout \<in> fst ` set (calls ?w2)"
    by (simp add: visit.simps is_error_handler_def)
  moreover from calls_extend [of env now ?w2 "drop 3 behind"]
  have "set (calls ?w2) \<subseteq> set (calls (handle env now h st))"
    by (auto simp: w(1) d)
  ultimately show ?thesis by (auto simp: stages_def)
qed

lemma webhook_refused:
  assumes "req_method h = POST" and "route_match ''/webhook-checkout'' (path h)"
    and "raw env (incoming h) = Fail e"
  shows "WebhookCheckout \<notin> set (stages (handle env now h st))"
    and "mode (handle env now h st) = Sent (globalErrorHandler env e)"
proof -
  show "WebhookCheckout \<notin> set (stages (handle env now h st))"
  proof
    assume "WebhookCheckout \<in> set (stages (handle env now h st))"
    then obtain rw out where "(WebhookCheckout, rw, out) \<in> set (calls (handle env now h st))"
      by (auto simp: stages_def)
    from webhook_received [OF assms(1,2) this] assms(3) show False by simp
  qed
  note w = webhook_walk [OF assms(1,2), of env now st]
  from w(2) assms(3) have "mode (visit env now
      (walk_on env now (start (incoming h) st) (front (node_env env) @ [(Use ''/api'', Limiter)]))
      (Verb POST ''/webhook-checkout'', RawBody)) = Erring e (incoming h)" by simp
  from erring_answered [OF this, of env now] w(1)
  show "mode (handle env now h st) = Sent (globalErrorHandler env e)" by simp
qed

text \<open>
  C3, as the code has it. The webhook route is registered before the generic body
  parsers, with \<open>express.raw({type: 'application/json'})\<close> in front of the handler.
  For a \<open>POST /webhook-checkout\<close> request, whenever the handler is called, the bytes of
  the request are untouched; if the request carries a body declared as
  \<open>application/json\<close> with no content coding, \<open>req.body\<close> is the buffer of exactly
  these bytes; if that body is compressed, \<open>req.body\<close> is the buffer of the bytes that
  the decompressor has yielded; and if the request has no body or a body of another
  type, \<open>req.body\<close> is the empty object. A JSON body without content coding reaches
  the handler when it has up to 100kb, the raw parser's own limit: the 10kb limit of
  the JSON parser plays no part. A JSON body in a coding other than \<open>gzip\<close> and
  \<open>deflate\<close> does not reach the handler: the raw parser fails the request with 415.
  And with a terminal handler neither generic body parser is ever called for this
  route.
\<close>

theorem webhook_raw_body:
  assumes "req_method h = POST" and "path h = ''/webhook-checkout''"
  shows "(\<forall>rw out. (WebhookCheckout, rw, out) \<in> set (calls (handle env now h st)) \<longrightarrow>
            rawBody rw = rawBody h \<and>
            (hasBody h \<and> contentType h = ApplicationJson \<and> coding_of h = ''identity'' \<longrightarrow>
               body rw = Buffer (rawBody h)) \<and>
            (hasBody h \<and> contentType h = ApplicationJson \<and> coding_of h \<noteq> ''identity'' \<longrightarrow>
               body rw = Buffer (fst (inflate env (coding_of h) (rawBody h)))) \<and>
            (\<not> (hasBody h \<and> contentType h = ApplicationJson) \<longrightarrow> body rw = EmptyObject)) \<and>
         (hasBody h \<and> contentType h = ApplicationJson \<and> coding_of h = ''identity'' \<and>
          length (rawBody h) \<le> 100 * 1024 \<longrightarrow>
            WebhookCheckout \<in> set (stages (handle env now h st))) \<and>
         (hasBody h \<and> contentType h = ApplicationJson \<and>
          coding_of h \<notin> {''identity'', ''gzip'', ''deflate''} \<longrightarrow>
            WebhookCheckout \<notin> set (stages (handle env now h st)) \<and>
            mode (handle env now h st) =
              Sent (globalErrorHandler env (unsupported_encoding (coding_of h)))) \<and>
         ((\<forall>r. webhookCheckout env r \<noteq> PassOn) \<longrightarrow>
            JsonParser \<notin> set (stages (handle env now h st)) \<and>
            Urlencoded \<notin> set (stages (handle env now h st)))"
proof (intro conjI allI impI)
  from assms(2) have rm: "route_match ''/webhook-checkout'' (path h)"
    by (simp add: route_match_self)
  {
    fix rw out
    assume "(WebhookCheckout, rw, out) \<in> set (calls (handle env now h st))"
    note r = raw_result [OF webhook_received [OF assms(1) rm this]]
    from r(1) show "rawBody rw = rawBody h" .
    {
      assume "hasBody h \<and> contentType h = ApplicationJson \<and> coding_of h = ''identity''"
      with r(3) show "body rw = Buffer (rawBody h)" by (simp add: body_bytes_def)
    }
    {
      assume "hasBody h \<and> contentType h = ApplicationJson \<and> coding_of h \<noteq> ''identity''"
      with r(3) show "body rw = Buffer (fst (inflate env (coding_of h) (rawBody h)))"
        by (simp add: body_bytes_def)
    }
    {
      assume "\<not> (hasBody h \<and> contentType h = ApplicationJson)"
      from r(2) [OF this] show "body rw = EmptyObject" .
    }
  }
  {
    assume a: "hasBody h \<and> contentType h = ApplicationJson \<and> coding_of h = ''identity'' \<and>
      length (rawBody h) \<le> 100 * 1024"
    then have "raw env (incoming h) =
        Next ((incoming h)\<lparr>body := Buffer (rawBody h), parsed := True\<rparr>)"
      using raw_read [of h env] by (simp add: body_bytes_def)
    from webhook_reached [OF assms(1) rm this]
    show "WebhookCheckout \<in> set (stages (handle env now h st))" .
  }
  {
    assume a: "hasBody h \<and> contentType h = ApplicationJson \<and>
      coding_of h \<notin> {''identity'', ''gzip'', ''deflate''}"
    then have f: "raw env (incoming h) = Fail (unsupported_encoding (coding_of h))"
      using raw_read [of h env] by simp
    from webhook_refused [OF assms(1) rm f]
    show "WebhookCheckout \<notin> set (stages (handle env now h st))"
      and "mode (handle env now h st) =
        Sent (globalErrorHandler env (unsupported_encoding (coding_of h)))" .
  }
  {
    assume t: "\<forall>r. webhookCheckout env r \<noteq> PassOn"
    show "JsonParser \<notin> set (stages (handle env now h st))"
      by (rule webhook_terminal [OF assms(1) rm t, of 3 "Use ''/''"]) (simp_all add: behind_def)
    show "Urlencoded \<notin> set (stages (handle env now h st))"
      by (rule webhook_terminal [OF assms(1) rm t, of 4 "Use ''/''"]) (simp_all add: behind_def)
  }
qed

lemma webhook_matches:
  "\<not> mount_match ''/api'' ''/webhook-checkout''"
  "route_match ''/webhook-checkout'' ''/webhook-checkout''"
  "pathname ''/webhook-checkout'' = ''/webhook-checkout''"
  by (simp_all add: match_defs pathname_def cut_def)

lemma webhook_plain_run:
  "calls (handle quiet 0 (post ''/webhook-checkout'' ''10.0.0.1'' OtherType ''{}'') fresh_store) =
     [(Cors, incoming (post ''/webhook-checkout'' ''10.0.0.1'' OtherType ''{}''),
         Next (incoming (post ''/webhook-checkout'' ''10.0.0.1'' OtherType ''{}''))),
      (Static, incoming (post ''/webhook-checkout'' ''10.0.0.1'' OtherType ''{}''),
         Next (incoming (post ''/webhook-checkout'' ''10.0.0.1'' OtherType ''{}''))),
      (Helmet, incoming (post ''/webhook-checkout'' ''10.0.0.1'' OtherType ''{}''),
         Next (incoming (post ''/webhook-checkout'' ''10.0.0.1'' OtherType ''{}''))),
      (RawBody, incoming (post ''/webhook-checkout'' ''10.0.0.1'' OtherType ''{}''),
         Next ((incoming (post ''/webhook-checkout'' ''10.0.0.1'' OtherType ''{}''))\<lparr>body := EmptyObject\<rparr>)),
      (WebhookCheckout,
         (incoming (post ''/webhook-checkout'' ''10.0.0.1'' OtherType ''{}''))\<lparr>body := EmptyObject\<rparr>,
         Respond \<lparr>status = 200, payload = Document ''received''\<rparr>)]"
  by (simp add: run_defs stage_run_defs quiet_def post_def fresh_store_def webhook_matches)

text \<open>
  A \<open>POST /webhook-checkout\<close> whose body is not declared as JSON: the raw parser does
  not read it, and the handler receives the empty object, not the bytes.
\<close>

theorem webhook_raw_body_counterexample:
  "(WebhookCheckout,
      (incoming (post ''/webhook-checkout'' ''10.0.0.1'' OtherType ''{}''))\<lparr>body := EmptyObject\<rparr>,
      Respond \<lparr>status = 200, payload = Document ''received''\<rparr>)
     \<in> set (calls (handle quiet 0 (post ''/webhook-checkout'' ''10.0.0.1'' OtherType ''{}'')
                fresh_store)) \<and>
   body ((incoming (post ''/webhook-checkout'' ''10.0.0.1'' OtherType ''{}''))\<lparr>body := EmptyObject\<rparr>)
     \<noteq> Buffer (rawBody (post ''/webhook-checkout'' ''10.0.0.1'' OtherType ''{}''))"
  by (simp add: webhook_plain_run)

lemma webhook_json_run:
  "calls (handle quiet 0 (post ''/webhook-checkout'' ''10.0.0.1'' ApplicationJson ''{}'') fresh_store) =
     [(Cors, incoming (post ''/webhook-checkout'' ''10.0.0.1'' ApplicationJson ''{}''),
         Next (incoming (post ''/webhook-checkout'' ''10.0.0.1'' ApplicationJson ''{}''))),
      (Static, incoming (post ''/webhook-checkout'' ''10.0.0.1'' ApplicationJson ''{}''),
         Next (incoming (post ''/webhook-checkout'' ''10.0.0.1'' ApplicationJson ''{}''))),
      (Helmet, incoming (post ''/webhook-checkout'' ''10.0.0.1'' ApplicationJson ''{}''),
         Next (incoming (post ''/webhook-checkout'' ''10.0.0.1'' ApplicationJson ''{}''))),
      (RawBody, incoming (post ''/webhook-checkout'' ''10.0.0.1'' ApplicationJson ''{}''),
         Next ((incoming (post ''/webhook-checkout'' ''10.0.0.1'' ApplicationJson ''{}''))
                 \<lparr>body := Buffer ''{}'', parsed := True\<rparr>)),
      (WebhookCheckout,
         (incoming (post ''/webhook-checkout'' ''10.0.0.1'' ApplicationJson ''{}''))
           \<lparr>body := Buffer ''{}'', parsed := True\<rparr>,
         Respond \<lparr>status = 200, payload = Document ''received''\<rparr>)]"
  by (simp add: run_defs stage_run_defs quiet_def post_def fresh_store_def webhook_matches)

theorem webhook_raw_body_witness:
  "req_method (post ''/webhook-checkout'' ''10.0.0.1'' ApplicationJson ''{}'') = POST \<and>
   path (post ''/webhook-checkout'' ''10.0.0.1'' ApplicationJson ''{}'') = ''/webhook-checkout'' \<and>
   hasBody (post ''/webhook-checkout'' ''10.0.0.1'' ApplicationJson ''{}'') \<and>
   contentType (post ''/webhook-checkout'' ''10.0.0.1'' ApplicationJson ''{}'') = ApplicationJson \<and>
   coding_of (post ''/webhook-checkout'' ''10.0.0.1'' ApplicationJson ''{}'') = ''identity'' \<and>
   length (rawBody (post ''/webhook-checkout'' ''10.0.0.1'' ApplicationJson ''{}'')) \<le> 100 * 1024 \<and>
   (\<forall>r. webhookCheckout quiet r \<noteq> PassOn) \<and>
   (WebhookCheckout,
      (incoming (post ''/webhook-checkout'' ''10.0.0.1'' ApplicationJson ''{}''))
        \<lparr>body := Buffer ''{}'', parsed := True\<rparr>,
      Respond \<lparr>status = 200, payload = Document ''received''\<rparr>)
     \<in> set (calls (handle quiet 0 (post ''/webhook-checkout'' ''10.0.0.1'' ApplicationJson ''{}'')
                fresh_store)) \<and>
   body ((incoming (post ''/webhook-checkout'' ''10.0.0.1'' ApplicationJson ''{}''))
           \<lparr>body := Buffer ''{}'', parsed := True\<rparr>)
     = Buffer (rawBody (post ''/webhook-checkout'' ''10.0.0.1'' ApplicationJson ''{}'')) \<and>
   WebhookCheckout \<in> set (stages (handle quiet 0
       (post ''/webhook-checkout'' ''10.0.0.1'' ApplicationJson ''{}'') fresh_store)) \<and>
   JsonParser \<notin> set (stages (handle quiet 0
       (post ''/webhook-checkout'' ''10.0.0.1'' ApplicationJson ''{}'') fresh_store)) \<and>
   Urlencoded \<notin> set (stages (handle quiet 0
       (post ''/webhook-checkout'' ''10.0.0.1'' ApplicationJson ''{}'') fresh_store))"
proof -
  let ?h = "post ''/webhook-checkout'' ''10.0.0.1'' ApplicationJson ''{}''"
  let ?rw = "(incoming ?h)\<lparr>body := Buffer ''{}'', parsed := True\<rparr>"
  let ?out = "Respond \<lparr>status = 200, payload = Document ''received''\<rparr>"
  have a: "req_method ?h = POST" "path ?h = ''/webhook-checkout''"
    by (simp_all add: post_def path_defs)
  have b: "hasBody ?h" "contentType ?h = ApplicationJson" "coding_of ?h = ''identity''"
    "length (rawBody ?h) \<le> 100 * 1024"
    by (simp_all add: post_def hasBody_def coding_of_def)
  have c: "\<forall>r. webhookCheckout quiet r \<noteq> PassOn"
    by (simp add: quiet_def)
  have d: "(WebhookCheckout, ?rw, ?out) \<in> set (calls (handle quiet 0 ?h fresh_store))"
    by (simp add: webhook_json_run)
  note t = webhook_raw_body [OF a, of quiet 0 fresh_store]
  from t d b have e: "body ?rw = Buffer (rawBody ?h)" by blast
  from t b have f: "WebhookCheckout \<in> set (stages (handle quiet 0 ?h fresh_store))" by blast
  from t c have g: "JsonParser \<notin> set (stages (handle quiet 0 ?h fresh_store))"
    "Urlencoded \<notin> set (stages (handle quiet 0 ?h fresh_store))" by blast+
  from a b c d e f g show ?thesis by blast
qed

section \<open>The generic body parsers\<close>
















section \<open>The catch-all route and the error handler\<close>

lemma app_catch_all:
  "app md = before_catch_all md @ [(AllVerbs ''*'', NotFound), (Use ''/'', GlobalErrorHandler)]"
  by (simp add: before_catch_all_def app_front behind_def)

lemma before_catch_all_handlers:
  "NotFound \<notin> snd ` set (before_catch_all md)"
  "GlobalErrorHandler \<notin> snd ` set (before_catch_all md)"
  using front_handlers [of md] by (auto simp: before_catch_all_def behind_def)

lemma geh_not_found:
  "globalErrorHandler env (AppError msg 404) = \<lparr>status = 404, payload = ErrorShape ClientFault msg\<rparr>"
  by (simp add: globalErrorHandler_def AppError_def fault_class_def)

lemma finish_running:
  assumes "mode w = Running r"
  shows "walk_on env now w [(AllVerbs ''*'', NotFound), (Use ''/'', GlobalErrorHandler)] =
     w\<lparr>calls := calls w @
          [(NotFound, r, Fail (AppError (cannot_find (originalUrl r)) 404)),
           (GlobalErrorHandler, r,
              Respond \<lparr>status = 404, payload = ErrorShape ClientFault (cannot_find (originalUrl r))\<rparr>)],
       mode := Sent \<lparr>status = 404, payload = ErrorShape ClientFault (cannot_find (originalUrl r))\<rparr>\<rparr>"
  using assms
  by (simp add: visit.simps is_error_handler_def not_found_def cannot_find_def geh_not_found)

lemma finish_erring:
  assumes "mode w = Erring e r"
  shows "walk_on env now w [(AllVerbs ''*'', NotFound), (Use ''/'', GlobalErrorHandler)] =
     w\<lparr>calls := calls w @ [(GlobalErrorHandler, r, Respond (globalErrorHandler env e))],
       mode := Sent (globalErrorHandler env e)\<rparr>"
  using assms by (simp add: visit.simps is_error_handler_def)

lemma handle_finish:
  "handle env now h st =
     walk_on env now (walk_on env now (start (incoming h) st) (before_catch_all (node_env env)))
       [(AllVerbs ''*'', NotFound), (Use ''/'', GlobalErrorHandler)]"
  by (simp add: handle_walk app_catch_all)

lemma always_sent: "\<exists>resp. mode (handle env now h st) = Sent resp"
proof -
  let ?w = "walk_on env now (start (incoming h) st) (before_catch_all (node_env env))"
  show ?thesis
  proof (cases "mode ?w")
    case (Running r)
    from finish_running [OF this, of env now] show ?thesis by (simp add: handle_finish)
  next
    case (Erring e r)
    from finish_erring [OF this, of env now] show ?thesis by (simp add: handle_finish)
  next
    case (Sent resp)
    from walk_sent [OF this, of env now "[(AllVerbs ''*'', NotFound), (Use ''/'', GlobalErrorHandler)]"]
    show ?thesis by (simp only: handle_finish Sent) blast
  qed
qed





lemma catch_all_called:
  assumes "NotFound \<in> set (stages (handle env now h st))"
  shows "\<exists>r. mode (walk_on env now (start (incoming h) st) (before_catch_all (node_env env)))
           = Running r \<and> originalUrl r = originalUrl h"
proof -
  let ?pre = "before_catch_all (node_env env)"
  let ?w = "walk_on env now (start (incoming h) st) ?pre"
  from assms obtain rn out where "(NotFound, rn, out) \<in> set (calls (handle env now h st))"
    by (auto simp: stages_def)
  then have c: "(NotFound, rn, out) \<in> set (calls (walk_on env now (start (incoming h) st)
      (?pre @ (AllVerbs ''*'', NotFound) # [(Use ''/'', GlobalErrorHandler)])))"
    by (simp add: handle_walk app_catch_all)
  have "NotFound \<notin> snd ` set [(Use ''/'', GlobalErrorHandler)]" by simp
  from called_at [OF c before_catch_all_handlers(1) this]
  have run: "mode ?w = Running rn" by (simp add: is_error_handler_def)
  have "addressed (incoming h) ?w" by (rule addressed_walk [OF addressed_start])
  with run have "envelope rn = envelope h"
    by (simp add: addressed_def mode_request_def incoming_envelope)
  then have "originalUrl rn = originalUrl h" by (simp add: envelope_def)
  with run show ?thesis by blast
qed




section \<open>The rate limiter\<close>

lemma limiter_outcome:
  "fst (limiter now r st) =
     (if 100 \<le> used (now div windowMs) st (ip r) then Respond too_many else Next r)"
  by (simp add: limiter_def resetAll_def used_def max_requests_def too_many_def Let_def)

lemma limiter_used:
  "used (now div windowMs) (snd (limiter now r st)) a =
     used (now div windowMs) st a + (if a = ip r then 1 else 0)"
  by (simp add: limiter_def resetAll_def used_def Let_def)

lemma front_unwritten:
  "\<forall>(m, g) \<in> set (front md). layer_match m r \<longrightarrow> \<not> writes g"
  by (auto simp: front_def writes_def)

lemma front_no_limiter: "Limiter \<notin> snd ` set (front md)"
  using front_handlers [of md] by auto

lemma limiter_called:
  assumes "(Limiter, r, out) \<in> set (calls (handle env now h st))"
  shows "r = incoming h \<and> out = fst (limiter now (incoming h) st) \<and>
         mode (walk_on env now (start (incoming h) st) (front (node_env env))) = Running (incoming h)"
proof -
  let ?pre = "front (node_env env)"
  let ?w = "walk_on env now (start (incoming h) st) ?pre"
  from assms have c: "(Limiter, r, out) \<in> set (calls (walk_on env now (start (incoming h) st)
      (?pre @ (Use ''/api'', Limiter) # drop 1 behind)))"
    by (simp add: handle_walk app_front behind_def)
  have b: "Limiter \<notin> snd ` set (drop 1 behind)" by (simp add: behind_def)
  from called_at [OF c front_no_limiter b]
  have run: "mode ?w = Running r" and out: "out = fst (run_handler env now Limiter r (store ?w))"
    by (simp_all add: is_error_handler_def)
  from running_unwritten [OF run front_unwritten] have r: "r = incoming h" .
  from store_kept [OF front_no_limiter, of env now "start (incoming h) st" "node_env env"]
  have "store ?w = st" by (simp add: start_def)
  with run out r show ?thesis by simp
qed

lemma limiter_summary:
  "(Limiter \<notin> set (stages (handle env now h st)) \<longrightarrow> store (handle env now h st) = st) \<and>
   (Limiter \<in> set (stages (handle env now h st)) \<longrightarrow>
      store (handle env now h st) = snd (limiter now (incoming h) st) \<and>
      (\<forall>resp. fst (limiter now (incoming h) st) = Respond resp \<longrightarrow>
         mode (handle env now h st) = Sent resp))"
proof (intro conjI impI)
  assume "Limiter \<notin> set (stages (handle env now h st))"
  with store_changed [of env now "start (incoming h) st" "app (node_env env)"]
  show "store (handle env now h st) = st"
    by (auto simp: handle_walk stages_def start_def)
next
  assume "Limiter \<in> set (stages (handle env now h st))"
  then obtain r out where c: "(Limiter, r, out) \<in> set (calls (handle env now h st))"
    by (auto simp: stages_def)
  let ?pre = "front (node_env env)"
  let ?w = "walk_on env now (start (incoming h) st) ?pre"
  let ?v = "visit env now ?w (Use ''/api'', Limiter)"
  have hw: "handle env now h st = walk_on env now ?v (drop 1 behind)"
    by (simp add: handle_walk app_front behind_def)
  from limiter_called [OF c] have run: "mode ?w = Running (incoming h)" by simp
  from c have "Limiter \<in> set (stages (handle env now h st))" by (force simp: stages_def)
  from called_matches [OF this] limiter_layer have "layer_match (Use ''/api'') h" by blast
  then have lm: "layer_match (Use ''/api'') (incoming h)" by (simp add: incoming_def path_def)
  from store_kept [OF front_no_limiter, of env now "start (incoming h) st" "node_env env"]
  have st: "store ?w = st" by (simp add: start_def)
  from run lm st have v: "?v = \<lparr>calls = calls ?w @ [(Limiter, incoming h, fst (limiter now (incoming h) st))],
      mode = after (incoming h) (fst (limiter now (incoming h) st)),
      store = snd (limiter now (incoming h) st)\<rparr>"
    by (simp add: visit.simps is_error_handler_def split: prod.splits)
  have b: "Limiter \<notin> snd ` set (drop 1 behind)" by (simp add: behind_def)
  from store_kept [OF b, of env now ?v] v hw
  show "store (handle env now h st) = snd (limiter now (incoming h) st)" by simp
  show "\<forall>resp. fst (limiter now (incoming h) st) = Respond resp \<longrightarrow>
      mode (handle env now h st) = Sent resp"
  proof (intro allI impI)
    fix resp assume "fst (limiter now (incoming h) st) = Respond resp"
    with v have "mode ?v = Sent resp" by simp
    from walk_sent [OF this, of env now "drop 1 behind"] hw \<open>mode ?v = Sent resp\<close>
    show "mode (handle env now h st) = Sent resp" by simp
  qed
qed

lemma counted_iff:
  "counted a (handle env now h st) \<longleftrightarrow> Limiter \<in> set (stages (handle env now h st)) \<and> ip h = a"
proof
  assume "counted a (handle env now h st)"
  then obtain r out where c: "(Limiter, r, out) \<in> set (calls (handle env now h st))" and "ip r = a"
    by (auto simp: counted_def list_ex_iff)
  with limiter_called [OF c] show "Limiter \<in> set (stages (handle env now h st)) \<and> ip h = a"
    by (force simp: stages_def incoming_def)
next
  assume a: "Limiter \<in> set (stages (handle env now h st)) \<and> ip h = a"
  then obtain r out where c: "(Limiter, r, out) \<in> set (calls (handle env now h st))"
    by (auto simp: stages_def)
  with limiter_called [OF c] a show "counted a (handle env now h st)"
    by (force simp: counted_def list_ex_iff incoming_def)
qed

lemma admitted_iff:
  "admitted a (handle env now h st) \<longleftrightarrow>
     counted a (handle env now h st) \<and> used (now div windowMs) st a < 100"
proof
  assume "admitted a (handle env now h st)"
  then obtain r out where c: "(Limiter, r, out) \<in> set (calls (handle env now h st))"
    and r: "ip r = a" and n: "is_Next out"
    by (auto simp: admitted_def list_ex_iff)
  from limiter_called [OF c] have e: "r = incoming h" "out = fst (limiter now (incoming h) st)"
    by simp_all
  from c r have "counted a (handle env now h st)"
    by (force simp: counted_def list_ex_iff)
  moreover from n e r have "used (now div windowMs) st a < 100"
    by (auto simp: limiter_outcome split: if_splits)
  ultimately show "counted a (handle env now h st) \<and> used (now div windowMs) st a < 100" by simp
next
  assume a: "counted a (handle env now h st) \<and> used (now div windowMs) st a < 100"
  then obtain r out where c: "(Limiter, r, out) \<in> set (calls (handle env now h st))"
    and r: "ip r = a"
    by (auto simp: counted_def list_ex_iff)
  from limiter_called [OF c] have e: "r = incoming h" "out = fst (limiter now (incoming h) st)"
    by simp_all
  with a r have "is_Next out" by (simp add: limiter_outcome)
  with c r show "admitted a (handle env now h st)"
    by (force simp: admitted_def list_ex_iff)
qed

lemma used_after:
  "used (now div windowMs) (store (handle env now h st)) a =
     used (now div windowMs) st a + (if counted a (handle env now h st) then 1 else 0)"
proof (cases "Limiter \<in> set (stages (handle env now h st))")
  case True
  with limiter_summary [of env now h st]
  have "store (handle env now h st) = snd (limiter now (incoming h) st)" by simp
  with True show ?thesis
    by (simp add: limiter_used counted_iff incoming_def)
next
  case False
  with limiter_summary [of env now h st] have "store (handle env now h st) = st" by simp
  with False show ?thesis by (simp add: counted_iff)
qed

lemma refused:
  assumes "counted a (handle env now h st)" and "100 \<le> used (now div windowMs) st a"
  shows "mode (handle env now h st) = Sent too_many"
proof -
  from assms(1) have l: "Limiter \<in> set (stages (handle env now h st))" and a: "ip h = a"
    by (simp_all add: counted_iff)
  from assms(2) a have "fst (limiter now (incoming h) st) = Respond too_many"
    by (simp add: limiter_outcome incoming_def)
  with limiter_summary [of env now h st] l show ?thesis by simp
qed


lemma serve_Cons:
  "serve env st ((now, h) # rest) =
     (handle env now h st # fst (serve env (store (handle env now h st)) rest),
      snd (serve env (store (handle env now h st)) rest))"
  by (simp split: prod.splits)

declare serve.simps(2) [simp del]

lemma serve_append:
  "serve env st (xs @ ys) =
     (fst (serve env st xs) @ fst (serve env (snd (serve env st xs)) ys),
      snd (serve env (snd (serve env st xs)) ys))"
proof (induction xs arbitrary: st)
  case Nil
  then show ?case by simp
next
  case (Cons x xs)
  obtain now h where x: "x = (now, h)" by (cases x)
  from Cons.IH [of "store (handle env now h st)"] show ?case
    by (simp add: x serve_Cons)
qed

lemma serve_used:
  "\<forall>(now, h) \<in> set reqs. now div windowMs = k \<Longrightarrow>
     used k (snd (serve env st reqs)) a =
       used k st a + length (filter (counted a) (fst (serve env st reqs)))"
proof (induction reqs arbitrary: st)
  case Nil
  then show ?case by simp
next
  case (Cons x reqs)
  obtain now h where x: "x = (now, h)" by (cases x)
  from Cons.prems x have k: "now div windowMs = k"
    and rest: "\<forall>(now, h) \<in> set reqs. now div windowMs = k" by auto
  from used_after [of now env h st a] k
  have "used k (store (handle env now h st)) a =
      used k st a + (if counted a (handle env now h st) then 1 else 0)" by simp
  with Cons.IH [OF rest, of "store (handle env now h st)"] show ?case
    by (simp add: x serve_Cons)
qed

lemma serve_admitted:
  "\<forall>(now, h) \<in> set reqs. now div windowMs = k \<Longrightarrow>
     length (filter (admitted a) (fst (serve env st reqs))) \<le> 100 - used k st a"
proof (induction reqs arbitrary: st)
  case Nil
  then show ?case by simp
next
  case (Cons x reqs)
  obtain now h where x: "x = (now, h)" by (cases x)
  from Cons.prems x have k: "now div windowMs = k"
    and rest: "\<forall>(now, h) \<in> set reqs. now div windowMs = k" by auto
  let ?w = "handle env now h st"
  from used_after [of now env h st a] k
  have u: "used k (store ?w) a = used k st a + (if counted a ?w then 1 else 0)" by simp
  from admitted_iff [of a env now h st] k
  have ad: "admitted a ?w \<longleftrightarrow> counted a ?w \<and> used k st a < 100" by simp
  from Cons.IH [OF rest, of "store ?w"]
  have ih: "length (filter (admitted a) (fst (serve env (store ?w) reqs))) \<le> 100 - used k (store ?w) a" .
  show ?case
  proof (cases "admitted a ?w")
    case True
    with ad u have "used k (store ?w) a = used k st a + 1" "used k st a < 100" by simp_all
    with ih True show ?thesis by (simp add: x serve_Cons)
  next
    case False
    from u have "used k st a \<le> used k (store ?w) a" by simp
    with ih False show ?thesis by (simp add: x serve_Cons)
  qed
qed

lemma serve_length: "length (fst (serve env st reqs)) = length reqs"
proof (induction reqs arbitrary: st)
  case Nil
  then show ?case by simp
next
  case (Cons x reqs)
  obtain now h where x: "x = (now, h)" by (cases x)
  from Cons.IH [of "store (handle env now h st)"] show ?case by (simp add: x serve_Cons)
qed

lemma serve_nth:
  assumes "i < length reqs"
  shows "take i (fst (serve env st reqs)) = fst (serve env st (take i reqs)) \<and>
         fst (serve env st reqs) ! i =
           handle env (fst (reqs ! i)) (snd (reqs ! i)) (snd (serve env st (take i reqs)))"
proof -
  let ?xs = "take i reqs"
  obtain now h where x: "reqs ! i = (now, h)" by (cases "reqs ! i")
  from assms have "reqs = ?xs @ (now, h) # drop (Suc i) reqs"
    by (simp add: id_take_nth_drop x [symmetric])
  then have "serve env st reqs = serve env st (?xs @ (now, h) # drop (Suc i) reqs)" by simp
  then have e: "fst (serve env st reqs) =
      fst (serve env st ?xs) @ handle env now h (snd (serve env st ?xs)) #
      fst (serve env (store (handle env now h (snd (serve env st ?xs)))) (drop (Suc i) reqs))"
    by (simp add: serve_append serve_Cons)
  have l: "length (fst (serve env st ?xs)) = i"
    using assms by (simp add: serve_length)
  from e l show ?thesis
    by (simp add: x nth_append)
qed

text \<open>
  C4, as the code has it. The limiter counts in fixed windows of one hour, numbered from
  its creation; the counters of all clients are cleared when a window ends. For requests
  that all arrive in one window, and any client \<open>a\<close>: the limiter passes at most 100
  requests of \<open>a\<close> on; and a request of \<open>a\<close> that reaches the limiter after 100
  earlier ones have (the 101st, the 102nd, ...) is answered by the limiter with status
  429 and the fixed message.
\<close>

theorem fixed_window_quota:
  assumes "\<forall>(now, h) \<in> set reqs. now div windowMs = k"
  shows "length (filter (admitted a) (fst (serve env st reqs))) \<le> 100 \<and>
         (\<forall>i < length reqs.
            100 \<le> length (filter (counted a) (take i (fst (serve env st reqs)))) \<and>
            counted a (fst (serve env st reqs) ! i) \<longrightarrow>
            mode (fst (serve env st reqs) ! i) =
              Sent \<lparr>status = 429, payload =
                Plain ''Too many requests from this IP, please try again in an hour!''\<rparr>)"
proof (intro conjI allI impI)
  from serve_admitted [OF assms, of a env st]
  show "length (filter (admitted a) (fst (serve env st reqs))) \<le> 100" by simp
next
  fix i
  assume i: "i < length reqs"
    and a: "100 \<le> length (filter (counted a) (take i (fst (serve env st reqs)))) \<and>
      counted a (fst (serve env st reqs) ! i)"
  obtain now h where x: "reqs ! i = (now, h)" by (cases "reqs ! i")
  let ?st = "snd (serve env st (take i reqs))"
  from serve_nth [OF i, of env st] x
  have t: "take i (fst (serve env st reqs)) = fst (serve env st (take i reqs))"
    and n: "fst (serve env st reqs) ! i = handle env now h ?st" by simp_all
  from i x assms have k: "now div windowMs = k"
    by (metis (mono_tags, lifting) case_prodD nth_mem)
  from assms have "\<forall>(now, h) \<in> set (take i reqs). now div windowMs = k"
    by (meson in_set_takeD)
  from serve_used [OF this, of env st a] a t
  have "100 \<le> used k ?st a" by simp
  with refused [of a env now h ?st] a n k
  have "mode (fst (serve env st reqs) ! i) = Sent too_many" by simp
  then show "mode (fst (serve env st reqs) ! i) =
      Sent \<lparr>status = 429, payload =
        Plain ''Too many requests from this IP, please try again in an hour!''\<rparr>"
    by (simp add: too_many_def limit_message_def)
qed


lemma reaches_limiter:
  assumes "req_method h \<noteq> OPTIONS" and "mount_match ''/api'' (path h)"
    and "send env (incoming h) = Missing"
  shows "Limiter \<in> set (stages (handle env now h st))"
proof -
  let ?r = "incoming h"
  let ?w = "walk_on env now (start ?r st) (front (node_env env))"
  let ?v = "visit env now ?w (Use ''/api'', Limiter)"
  have p: "path ?r = path h" "req_method ?r = req_method h" by (simp_all add: incoming_def path_def)
  have "mode ?w = Running ?r"
  proof (rule keeps_running)
    show "mode (start ?r st) = Running ?r" by (simp add: start_def)
    show "\<forall>(m, g) \<in> set (front (node_env env)).
        layer_match m ?r \<and> \<not> is_error_handler g \<longrightarrow> (\<forall>st. fst (run_handler env now g ?r st) = Next ?r)"
      using assms(1,3) p by (auto simp: front_def cors_def static_def)
  qed
  with assms(2) p have "Limiter \<in> fst ` set (calls ?v)"
    by (simp add: visit.simps is_error_handler_def split: prod.splits)
  moreover have "handle env now h st = walk_on env now ?v (drop 1 behind)"
    by (simp add: handle_walk app_front behind_def)
  with calls_extend [of env now ?v "drop 1 behind"]
  have "set (calls ?v) \<subseteq> set (calls (handle env now h st))" by auto
  ultimately show ?thesis by (auto simp: stages_def)
qed

lemma serve_replicate:
  assumes "\<forall>st. counted a (handle env now h st)"
  shows "used (now div windowMs) st a + n \<le> 100 \<Longrightarrow>
     length (filter (admitted a) (fst (serve env st (replicate n (now, h))))) = n \<and>
     length (filter (counted a) (fst (serve env st (replicate n (now, h))))) = n \<and>
     used (now div windowMs) (snd (serve env st (replicate n (now, h)))) a =
       used (now div windowMs) st a + n"
proof (induction n arbitrary: st)
  case 0
  then show ?case by simp
next
  case (Suc n)
  let ?w = "handle env now h st"
  from assms have c: "counted a ?w" by simp
  with Suc.prems have ad: "admitted a ?w" by (simp add: admitted_iff)
  from used_after [of now env h st a] c
  have u: "used (now div windowMs) (store ?w) a = used (now div windowMs) st a + 1" by simp
  with Suc.prems have "used (now div windowMs) (store ?w) a + n \<le> 100" by simp
  from Suc.IH [OF this] c ad u show ?case
    by (simp add: serve_Cons)
qed

lemma tours_counted:
  "counted ''10.0.0.1'' (handle quiet now (get ''/api/v1/tours'' [] ''10.0.0.1'') st)"
proof -
  let ?h = "get ''/api/v1/tours'' [] ''10.0.0.1''"
  have "path ?h = ''/api/v1/tours''" by (simp add: get_def path_defs)
  then have "Limiter \<in> set (stages (handle quiet now ?h st))"
    by (intro reaches_limiter) (simp_all add: get_def tours_matches quiet_def)
  then show ?thesis by (simp add: counted_iff get_def)
qed

text \<open>
  The windows do not roll. A client sends 100 requests in the last millisecond of the
  first window and one more a millisecond later: all 101 are passed on, within far less
  than an hour, and the 101st is not refused.
\<close>

theorem fixed_window_quota_counterexample:
  "length (filter (admitted ''10.0.0.1'')
     (fst (serve quiet fresh_store
        (replicate 100 (3599999, get ''/api/v1/tours'' [] ''10.0.0.1'') @
         [(3600000, get ''/api/v1/tours'' [] ''10.0.0.1'')])))) = 101 \<and>
   (3600000::nat) - 3599999 < windowMs"
proof -
  let ?h = "get ''/api/v1/tours'' [] ''10.0.0.1''"
  let ?a = "''10.0.0.1''"
  let ?st = "snd (serve quiet fresh_store (replicate 100 (3599999, ?h)))"
  have k0: "(3599999::nat) div windowMs = 0" and k1: "(3600000::nat) div windowMs = 1"
    by (simp_all add: windowMs_def)
  have "used 0 fresh_store ?a + 100 \<le> 100" by (simp add: used_def fresh_store_def)
  with serve_replicate [of ?a quiet 3599999 ?h fresh_store 100] tours_counted k0
  have first: "length (filter (admitted ?a) (fst (serve quiet fresh_store (replicate 100 (3599999, ?h))))) = 100"
    and u: "used 0 ?st ?a = 100"
    by (simp_all add: used_def fresh_store_def)
  from u have "window ?st = 0" by (simp add: used_def split: if_splits)
  then have "used 1 ?st ?a = 0" by (simp add: used_def)
  with admitted_iff [of ?a quiet 3600000 ?h ?st] tours_counted k1
  have "admitted ?a (handle quiet 3600000 ?h ?st)" by simp
  with first show ?thesis
    by (simp add: serve_append serve_Cons windowMs_def)
qed

theorem fixed_window_quota_witness:
  "(0::nat) div windowMs = 0 \<and> (5::nat) div windowMs = 0 \<and>
   100 < length (replicate 100 (0::nat, get ''/api/v1/tours'' [] ''10.0.0.1'') @
        [(5, get ''/api/v1/tours'' [] ''10.0.0.1'')]) \<and>
   100 \<le> length (filter (counted ''10.0.0.1'')
      (take 100 (fst (serve quiet fresh_store
         (replicate 100 (0, get ''/api/v1/tours'' [] ''10.0.0.1'') @
          [(5, get ''/api/v1/tours'' [] ''10.0.0.1'')]))))) \<and>
   counted ''10.0.0.1''
     (fst (serve quiet fresh_store
         (replicate 100 (0, get ''/api/v1/tours'' [] ''10.0.0.1'') @
          [(5, get ''/api/v1/tours'' [] ''10.0.0.1'')])) ! 100) \<and>
   mode (fst (serve quiet fresh_store
         (replicate 100 (0, get ''/api/v1/tours'' [] ''10.0.0.1'') @
          [(5, get ''/api/v1/tours'' [] ''10.0.0.1'')])) ! 100) =
     Sent \<lparr>status = 429, payload =
       Plain ''Too many requests from this IP, please try again in an hour!''\<rparr> \<and>
   length (filter (admitted ''10.0.0.1'')
     (fst (serve quiet fresh_store
         (replicate 100 (0, get ''/api/v1/tours'' [] ''10.0.0.1'') @
          [(5, get ''/api/v1/tours'' [] ''10.0.0.1'')])))) \<le> 100"
proof -
  let ?h = "get ''/api/v1/tours'' [] ''10.0.0.1''"
  let ?a = "''10.0.0.1''"
  let ?reqs = "replicate 100 (0::nat, ?h) @ [(5, ?h)]"
  let ?ws = "fst (serve quiet fresh_store ?reqs)"
  have w: "\<forall>(now, h) \<in> set ?reqs. now div windowMs = 0"
    by (simp add: windowMs_def)
  have l: "100 < length ?reqs" by simp
  have "used (0 div windowMs) fresh_store ?a + 100 \<le> 100"
    by (simp add: used_def fresh_store_def)
  from serve_replicate [of ?a quiet 0 ?h fresh_store 100, OF _ this] tours_counted
  have hundred: "length (filter (counted ?a) (fst (serve quiet fresh_store (replicate 100 (0, ?h))))) = 100"
    by simp
  from l serve_nth [of 100 ?reqs quiet fresh_store]
  have t: "take 100 ?ws = fst (serve quiet fresh_store (replicate 100 (0, ?h)))"
    and n: "?ws ! 100 = handle quiet 5 ?h (snd (serve quiet fresh_store (replicate 100 (0, ?h))))"
    by (simp_all add: nth_append)
  from t hundred have c1: "100 \<le> length (filter (counted ?a) (take 100 ?ws))" by simp
  from n tours_counted have c2: "counted ?a (?ws ! 100)" by simp
  note q = fixed_window_quota [OF w, of ?a quiet fresh_store]
  from q l c1 c2 have m: "mode (?ws ! 100) =
      Sent \<lparr>status = 429, payload =
        Plain ''Too many requests from this IP, please try again in an hour!''\<rparr>"
    by blast
  from q have b: "length (filter (admitted ?a) ?ws) \<le> 100" by blast
  have "(0::nat) div windowMs = 0 \<and> (5::nat) div windowMs = 0"
    by (simp add: windowMs_def)
  with l c1 c2 m b show ?thesis by blast
qed



lemma nope_matches:
  "mount_match ''/api'' ''/api/v1/nope''"
  "\<not> mount_match ''/api/v1/tours'' ''/api/v1/nope''"
  "\<not> mount_match ''/api/v1/users'' ''/api/v1/nope''"
  "\<not> mount_match ''/api/v1/reviews'' ''/api/v1/nope''"
  "\<not> mount_match ''/api/v1/bookings'' ''/api/v1/nope''"
  "\<not> route_match ''/webhook-checkout'' ''/api/v1/nope''"
  "pathname ''/api/v1/nope'' = ''/api/v1/nope''"
  by (simp_all add: match_defs pathname_def cut_def)

lemma nope_run:
  "stages (handle quiet 0 (get ''/api/v1/nope'' [] ''10.0.0.1'') fresh_store) =
     [Cors, Static, Helmet, Limiter, JsonParser, Urlencoded, CookieParser, MongoSanitize, Xss,
      Hpp, Compression, RequestTime, ViewRouter, NotFound, GlobalErrorHandler]"
  by (simp add: run_defs stage_run_defs quiet_def get_def fresh_store_def nope_matches)



lemma hundred_and_first:
  assumes "\<forall>st. counted a (handle env 0 h st)"
  shows "mode (fst (serve env fresh_store (replicate 100 (0, h) @ [(0, h)])) ! 100) = Sent too_many"
proof -
  let ?reqs = "replicate 100 (0::nat, h) @ [(0, h)]"
  let ?st = "snd (serve env fresh_store (replicate 100 (0, h)))"
  have "used (0 div windowMs) fresh_store a + 100 \<le> 100"
    by (simp add: used_def fresh_store_def)
  from serve_replicate [OF assms this]
  have u: "used 0 ?st a = 100" by (simp add: used_def fresh_store_def)
  have "100 < length ?reqs" by simp
  from serve_nth [OF this, of env fresh_store]
  have n: "fst (serve env fresh_store ?reqs) ! 100 = handle env 0 h ?st"
    by (simp add: nth_append)
  from assms have "counted a (handle env 0 h ?st)" by simp
  from refused [OF this] u n show ?thesis by simp
qed



section \<open>Uniform error shaping\<close>

lemma of_handled_Respond:
  "of_handled r x = Respond resp \<Longrightarrow> x = Answer resp"
  by (cases x) auto

lemma read_no_response: "read env limit encoding parse r \<noteq> Respond resp"
  by (auto simp: read_def split: sum.splits prod.splits)

lemma read_body_no_response: "read_body env ty limit charsets parse r \<noteq> Respond resp"
proof
  assume "read_body env ty limit charsets parse r = Respond resp"
  then show False
    by (cases rule: read_body_cases) (simp_all add: read_no_response [symmetric])
qed

lemma static_response:
  "static env r = Respond resp \<Longrightarrow> status resp \<in> {200, 206, 301, 304}"
  by (auto simp: static_def answer_def split: if_splits static_answer.splits)

lemma direct_response:
  assumes "fst (run_handler env now g r st) = Respond resp"
  shows "(g \<in> {Cors, CorsPreflight} \<and> resp = \<lparr>status = 204, payload = NoContent\<rparr>) \<or>
     (g = Static \<and> status resp \<in> {200, 206, 301, 304}) \<or>
     (g = Limiter \<and> resp = \<lparr>status = 429, payload = Plain limit_message\<rparr>) \<or>
     g \<in> {WebhookCheckout, ViewRouter, TourRouter, UserRouter, ReviewRouter, BookingRouter}"
proof (cases g)
  case Static
  with assms static_response [of env r resp] show ?thesis by simp
next
  case RawBody
  with assms read_body_no_response show ?thesis by (simp add: raw_def)
next
  case JsonParser
  with assms read_body_no_response show ?thesis by (simp add: json_def)
next
  case Urlencoded
  with assms read_body_no_response show ?thesis by (simp add: urlencoded_def)
qed (use assms in \<open>auto simp: cors_def limiter_def mongoSanitize_def xss_def hpp_def
       request_time_def not_found_def Let_def split: if_splits\<close>)

lemma geh_shape: "\<exists>c m. payload (globalErrorHandler env e) = ErrorShape c m"
  by (simp add: globalErrorHandler_def Let_def)

lemma handle_shaped: "shaped env (handle env now h st)"
  unfolding handle_walk by (rule shaped_walk [OF shaped_start])

lemma handle_justified: "justified env now (app (node_env env)) (handle env now h st)"
  unfolding handle_walk by (rule justified_walk)

lemma justified_outcome:
  assumes "justified env now ls w" and "(g, rg, out) \<in> set (calls w)"
  shows "is_error_handler g \<longrightarrow> (\<exists>e. out = Respond (globalErrorHandler env e))"
    and "\<not> is_error_handler g \<longrightarrow> (\<exists>st. out = fst (run_handler env now g rg st))"
proof -
  from assms have "if is_error_handler g then \<exists>e. out = Respond (globalErrorHandler env e)
      else \<exists>st. out = fst (run_handler env now g rg st)"
    unfolding justified_def by blast
  then show "is_error_handler g \<longrightarrow> (\<exists>e. out = Respond (globalErrorHandler env e))"
    and "\<not> is_error_handler g \<longrightarrow> (\<exists>st. out = fst (run_handler env now g rg st))"
    by (simp_all split: if_splits)
qed

lemma fault_answered:
  assumes "(g, r, Fail e) \<in> set (calls (handle env now h st))"
  shows "mode (handle env now h st) = Sent (globalErrorHandler env e) \<and>
         (GlobalErrorHandler, r, Respond (globalErrorHandler env e)) \<in> set (calls (handle env now h st))"
proof -
  let ?w = "handle env now h st"
  from always_sent [of env now h st] obtain resp where s: "mode ?w = Sent resp" by blast
  with handle_shaped [of env now h st]
  have "(\<exists>cs g' rg. calls ?w = cs @ [(g', rg, Respond resp)] \<and> all_next cs \<and>
            \<not> is_error_handler g') \<or>
        (\<exists>cs f g' rg e'. calls ?w = cs @ [(f, rg, Fail e'), (g', rg, Respond resp)] \<and>
            all_next cs \<and> is_error_handler g' \<and> resp = globalErrorHandler env e')"
    by (simp add: shaped_def)
  then show ?thesis
  proof
    assume "\<exists>cs g' rg. calls ?w = cs @ [(g', rg, Respond resp)] \<and> all_next cs \<and>
        \<not> is_error_handler g'"
    then obtain cs g' rg where c: "calls ?w = cs @ [(g', rg, Respond resp)]" and n: "all_next cs"
      by blast
    from assms c have "(g, r, Fail e) \<in> set cs" by auto
    with n show ?thesis by (auto simp: all_next_def)
  next
    assume "\<exists>cs f g' rg e'. calls ?w = cs @ [(f, rg, Fail e'), (g', rg, Respond resp)] \<and>
        all_next cs \<and> is_error_handler g' \<and> resp = globalErrorHandler env e'"
    then obtain cs f g' rg e' where c: "calls ?w = cs @ [(f, rg, Fail e'), (g', rg, Respond resp)]"
      and n: "all_next cs" and g': "is_error_handler g'" and resp: "resp = globalErrorHandler env e'"
      by blast
    from assms c have "(g, r, Fail e) \<in> set cs \<or> (g, r, Fail e) = (f, rg, Fail e')" by auto
    with n have "r = rg \<and> e = e'" by (auto simp: all_next_def)
    with c g' resp s show ?thesis by (simp add: is_error_handler_def)
  qed
qed

lemma geh_called:
  assumes "GlobalErrorHandler \<in> set (stages (handle env now h st))"
  shows "\<exists>e. mode (handle env now h st) = Sent (globalErrorHandler env e)"
proof -
  let ?w = "handle env now h st"
  from assms obtain r out where c: "(GlobalErrorHandler, r, out) \<in> set (calls ?w)"
    by (auto simp: stages_def)
  from justified_outcome(1) [OF handle_justified c]
  obtain e where out: "out = Respond (globalErrorHandler env e)"
    by (auto simp: is_error_handler_def)
  from always_sent [of env now h st] obtain resp where s: "mode ?w = Sent resp" by blast
  with handle_shaped [of env now h st]
  have "(\<exists>cs g' rg. calls ?w = cs @ [(g', rg, Respond resp)] \<and> all_next cs \<and>
            \<not> is_error_handler g') \<or>
        (\<exists>cs f g' rg e'. calls ?w = cs @ [(f, rg, Fail e'), (g', rg, Respond resp)] \<and>
            all_next cs \<and> is_error_handler g' \<and> resp = globalErrorHandler env e')"
    by (simp add: shaped_def)
  then show ?thesis
  proof
    assume "\<exists>cs g' rg. calls ?w = cs @ [(g', rg, Respond resp)] \<and> all_next cs \<and>
        \<not> is_error_handler g'"
    then obtain cs g' rg where cc: "calls ?w = cs @ [(g', rg, Respond resp)]" and n: "all_next cs"
      and g': "\<not> is_error_handler g'" by blast
    from c cc g' have "(GlobalErrorHandler, r, out) \<in> set cs"
      by (auto simp: is_error_handler_def)
    with n out show ?thesis by (auto simp: all_next_def)
  next
    assume "\<exists>cs f g' rg e'. calls ?w = cs @ [(f, rg, Fail e'), (g', rg, Respond resp)] \<and>
        all_next cs \<and> is_error_handler g' \<and> resp = globalErrorHandler env e'"
    with s show ?thesis by auto
  qed
qed

text \<open>
  C1, as the code has it. Every request is answered by the stack of the application:
  Express's own final handler is never reached. Every fault that a stage raises is
  answered by the terminal error handler, in the \<open>{status, message}\<close> shape. A
  response that a stage sends itself does not pass through the error handler: of the
  stages that \<open>app.js\<close> configures, such responses are the pre-flight answer (204),
  the answers of the file server (200, 206, 301 or 304) and the rate limiter's 429 with
  its message as plain text, so that among these the limiter's is the only one with an
  error status; the other responses are those of the webhook handler and the routers,
  which \<open>app.js\<close> imports: about them nothing is said here.
\<close>

theorem error_shaping:
  "(\<exists>resp. mode (handle env now h st) = Sent resp) \<and>
   (\<forall>g r e. (g, r, Fail e) \<in> set (calls (handle env now h st)) \<longrightarrow>
      mode (handle env now h st) = Sent (globalErrorHandler env e) \<and>
      (GlobalErrorHandler, r, Respond (globalErrorHandler env e))
        \<in> set (calls (handle env now h st)) \<and>
      (\<exists>c m. payload (globalErrorHandler env e) = ErrorShape c m)) \<and>
   (\<forall>g r resp. (g, r, Respond resp) \<in> set (calls (handle env now h st)) \<and>
        g \<noteq> GlobalErrorHandler \<longrightarrow>
      (g \<in> {Cors, CorsPreflight} \<and> resp = \<lparr>status = 204, payload = NoContent\<rparr>) \<or>
      (g = Static \<and> status resp \<in> {200, 206, 301, 304}) \<or>
      (g = Limiter \<and> resp = \<lparr>status = 429, payload =
          Plain ''Too many requests from this IP, please try again in an hour!''\<rparr>) \<or>
      g \<in> {WebhookCheckout, ViewRouter, TourRouter, UserRouter, ReviewRouter, BookingRouter}) \<and>
   (\<forall>g r resp. (g, r, Respond resp) \<in> set (calls (handle env now h st)) \<and>
        g \<notin> {GlobalErrorHandler, WebhookCheckout, ViewRouter, TourRouter, UserRouter,
               ReviewRouter, BookingRouter} \<and>
        400 \<le> status resp \<longrightarrow>
      g = Limiter \<and> resp = \<lparr>status = 429, payload =
          Plain ''Too many requests from this IP, please try again in an hour!''\<rparr>)"
proof (intro conjI allI impI)
  show "\<exists>resp. mode (handle env now h st) = Sent resp" by (rule always_sent)
next
  fix g r e assume f: "(g, r, Fail e) \<in> set (calls (handle env now h st))"
  from fault_answered [OF f]
  show "mode (handle env now h st) = Sent (globalErrorHandler env e)"
    and "(GlobalErrorHandler, r, Respond (globalErrorHandler env e))
        \<in> set (calls (handle env now h st))" by simp_all
  show "\<exists>c m. payload (globalErrorHandler env e) = ErrorShape c m" by (rule geh_shape)
next
  fix g r resp
  assume a: "(g, r, Respond resp) \<in> set (calls (handle env now h st)) \<and> g \<noteq> GlobalErrorHandler"
  then have "(g, r, Respond resp) \<in> set (calls (handle env now h st))"
    and "\<not> is_error_handler g" by (simp_all add: is_error_handler_def)
  with justified_outcome(2) [OF handle_justified]
  obtain st' where "Respond resp = fst (run_handler env now g r st')"
    by blast
  from direct_response [OF this [symmetric]]
  show "(g \<in> {Cors, CorsPreflight} \<and> resp = \<lparr>status = 204, payload = NoContent\<rparr>) \<or>
      (g = Static \<and> status resp \<in> {200, 206, 301, 304}) \<or>
      (g = Limiter \<and> resp = \<lparr>status = 429, payload =
          Plain ''Too many requests from this IP, please try again in an hour!''\<rparr>) \<or>
      g \<in> {WebhookCheckout, ViewRouter, TourRouter, UserRouter, ReviewRouter, BookingRouter}"
    by (simp add: limit_message_def)
next
  fix g r resp
  assume a: "(g, r, Respond resp) \<in> set (calls (handle env now h st)) \<and>
      g \<notin> {GlobalErrorHandler, WebhookCheckout, ViewRouter, TourRouter, UserRouter,
             ReviewRouter, BookingRouter} \<and> 400 \<le> status resp"
  then have c: "(g, r, Respond resp) \<in> set (calls (handle env now h st))"
    and "\<not> is_error_handler g" by (simp_all add: is_error_handler_def)
  with justified_outcome(2) [OF handle_justified]
  obtain st' where "Respond resp = fst (run_handler env now g r st')"
    by blast
  from direct_response [OF this [symmetric]] a
  have "g = Limiter \<and> resp = \<lparr>status = 429, payload = Plain limit_message\<rparr>"
    by auto
  then show "g = Limiter" and "resp = \<lparr>status = 429, payload =
      Plain ''Too many requests from this IP, please try again in an hour!''\<rparr>"
    by (simp_all add: limit_message_def)
qed

text \<open>
  The 101st request of a client in one window: the rate limiter answers it with status
  429 and the plain message, and the error handler is not called.
\<close>

theorem error_shaping_counterexample:
  "mode (fst (serve quiet fresh_store
      (replicate 100 (0, get ''/api/v1/tours'' [] ''10.0.0.1'') @
       [(0, get ''/api/v1/tours'' [] ''10.0.0.1'')])) ! 100) =
     Sent \<lparr>status = 429, payload =
       Plain ''Too many requests from this IP, please try again in an hour!''\<rparr> \<and>
   GlobalErrorHandler \<notin> set (stages (fst (serve quiet fresh_store
      (replicate 100 (0, get ''/api/v1/tours'' [] ''10.0.0.1'') @
       [(0, get ''/api/v1/tours'' [] ''10.0.0.1'')])) ! 100))"
proof -
  let ?h = "get ''/api/v1/tours'' [] ''10.0.0.1''"
  let ?reqs = "replicate 100 (0::nat, ?h) @ [(0, ?h)]"
  let ?w = "fst (serve quiet fresh_store ?reqs) ! 100"
  from hundred_and_first [of "''10.0.0.1''" quiet ?h] tours_counted
  have m: "mode ?w = Sent too_many" by simp
  have "100 < length ?reqs" by simp
  from serve_nth [OF this, of quiet fresh_store]
  have n: "?w = handle quiet 0 ?h (snd (serve quiet fresh_store (replicate 100 (0, ?h))))"
    by (simp add: nth_append)
  have "GlobalErrorHandler \<notin> set (stages ?w)"
  proof
    assume "GlobalErrorHandler \<in> set (stages ?w)"
    with n geh_called obtain e where "mode ?w = Sent (globalErrorHandler quiet e)" by metis
    with m have "too_many = globalErrorHandler quiet e" by simp
    with geh_shape [of quiet e] show False by (auto simp: too_many_def)
  qed
  with m show ?thesis by (simp add: too_many_def limit_message_def)
qed


lemma not_found_fault:
  assumes "NotFound \<in> set (stages (handle env now h st))"
  shows "\<exists>r. (NotFound, r, Fail (AppError (cannot_find (originalUrl h)) 404))
           \<in> set (calls (handle env now h st))"
proof -
  let ?w = "walk_on env now (start (incoming h) st) (before_catch_all (node_env env))"
  from catch_all_called [OF assms] obtain r where
    r: "mode ?w = Running r" and u: "originalUrl r = originalUrl h" by blast
  from finish_running [OF r, of env now] u show ?thesis
    by (auto simp: handle_finish)
qed

lemma refused_call:
  assumes "counted a (handle env now h st)" and "100 \<le> used (now div windowMs) st a"
  shows "(Limiter, incoming h, Respond too_many) \<in> set (calls (handle env now h st))"
proof -
  from assms(1) obtain r out where c: "(Limiter, r, out) \<in> set (calls (handle env now h st))"
    and a: "ip r = a"
    by (auto simp: counted_def list_ex_iff)
  from limiter_called [OF c] have e: "r = incoming h" "out = fst (limiter now (incoming h) st)"
    by simp_all
  with a assms(2) have "out = Respond too_many" by (simp add: limiter_outcome)
  with c e show ?thesis by simp
qed

theorem error_shaping_witness:
  "(\<exists>r. (NotFound, r, Fail (AppError (cannot_find ''/api/v1/nope'') 404))
      \<in> set (calls (handle quiet 0 (get ''/api/v1/nope'' [] ''10.0.0.1'') fresh_store))) \<and>
   mode (handle quiet 0 (get ''/api/v1/nope'' [] ''10.0.0.1'') fresh_store) =
     Sent (globalErrorHandler quiet (AppError (cannot_find ''/api/v1/nope'') 404)) \<and>
   (Limiter, incoming (get ''/api/v1/tours'' [] ''10.0.0.1''),
      Respond \<lparr>status = 429, payload =
        Plain ''Too many requests from this IP, please try again in an hour!''\<rparr>)
     \<in> set (calls (handle quiet 0 (get ''/api/v1/tours'' [] ''10.0.0.1'')
                \<lparr>hits = (\<lambda>key. 100), window = 0\<rparr>)) \<and>
   Limiter \<noteq> GlobalErrorHandler \<and>
   (\<exists>resp. mode (handle quiet 0 (get ''/api/v1/tours'' [] ''10.0.0.1'')
                \<lparr>hits = (\<lambda>key. 100), window = 0\<rparr>) = Sent resp)"
proof -
  let ?h = "get ''/api/v1/nope'' [] ''10.0.0.1''"
  let ?t = "get ''/api/v1/tours'' [] ''10.0.0.1''"
  let ?full = "\<lparr>hits = (\<lambda>key. 100), window = 0\<rparr>"
  have "NotFound \<in> set (stages (handle quiet 0 ?h fresh_store))"
    by (simp add: nope_run)
  from not_found_fault [OF this]
  have a: "\<exists>r. (NotFound, r, Fail (AppError (cannot_find ''/api/v1/nope'') 404))
      \<in> set (calls (handle quiet 0 ?h fresh_store))"
    by (simp add: get_def)
  with error_shaping [of quiet 0 ?h fresh_store]
  have b: "mode (handle quiet 0 ?h fresh_store) =
      Sent (globalErrorHandler quiet (AppError (cannot_find ''/api/v1/nope'') 404))"
    by blast
  have "100 \<le> used (0 div windowMs) ?full ''10.0.0.1''" by (simp add: used_def)
  from refused_call [OF tours_counted this]
  have c: "(Limiter, incoming ?t,
      Respond \<lparr>status = 429, payload =
        Plain ''Too many requests from this IP, please try again in an hour!''\<rparr>)
      \<in> set (calls (handle quiet 0 ?t ?full))"
    by (simp add: too_many_def limit_message_def)
  from error_shaping [of quiet 0 ?t ?full]
  have d: "\<exists>resp. mode (handle quiet 0 ?t ?full) = Sent resp" by blast
  from a b c d show ?thesis by simp
qed


end
